theory Spec2Isabelle
  imports Complex_Main "HOL-Library.Word" "HOL-Library.Log_Nat" "HOL-Library.Monad_Syntax"
begin

unbundle bit_operations_syntax

section \<open>Global types (Global_Types.h)\<close>

text \<open>
  The integer typedefs of \<^verbatim>\<open>Global_Types.h\<close>, each at the width its name and comment
  give.  Signedness is not part of a word: it is chosen by the operations
  (\<open>sint\<close>, \<open><s\<close>, \<open>scast\<close> for the signed types).
\<close>

type_synonym Std_ReturnType = "8 word"
type_synonym boolean = "8 word"
type_synonym sint8 = "8 word"
type_synonym sint16 = "16 word"
type_synonym sint32 = "32 word"
type_synonym uint32 = "32 word"
type_synonym sint64 = "64 word"
type_synonym uint64 = "64 word"

type_synonym t_Fixed16 = sint16
type_synonym t_Fixed8 = sint8

definition E_OK :: Std_ReturnType where
  "E_OK = 0x00"

definition E_NOT_OK :: Std_ReturnType where
  "E_NOT_OK = 0x01"

section \<open>Configuration (FixedPoint_cfg.h)\<close>

definition SHIFT_16 :: nat where
  "SHIFT_16 = 8"

definition SCALE_16 :: nat where
  "SCALE_16 = 2 ^ SHIFT_16"

definition SHIFT_8 :: nat where
  "SHIFT_8 = 4"

definition SCALE_8 :: nat where
  "SCALE_8 = 2 ^ SHIFT_8"

definition FIX16_MAX :: t_Fixed16 where
  "FIX16_MAX = 32767"

definition FIX16_MIN :: t_Fixed16 where
  "FIX16_MIN = - 32768"

definition FIX8_MAX :: t_Fixed8 where
  "FIX8_MAX = 127"

definition FIX8_MIN :: t_Fixed8 where
  "FIX8_MIN = - 128"

section \<open>Pointers to output variables\<close>

text \<open>
  An output parameter is a pointer that is either null or refers to a variable.  The
  variable's contents are \<open>None\<close> while it is uninitialised (a local declared without
  initialiser) and \<open>Some v\<close> once it holds \<open>v\<close>.  A function with an output parameter
  returns the pointer together with the new contents of the variable.
\<close>

datatype 'a ptr = NULL | Ref "'a option"

fun deref :: "'a ptr \<Rightarrow> 'a option" where
  "deref NULL = None"
| "deref (Ref c) = c"

section \<open>The C type float\<close>

text \<open>
  \<^verbatim>\<open>float\<close> is IEEE 754 binary32: a sign bit, an 8-bit biased exponent and a 23-bit
  fraction.  Exponent field 255 encodes the infinities (fraction 0) and the NaNs; exponent
  field 0 encodes the zeros and the subnormal numbers.  The value of a finite number is
  kept as an exact rational, scaled so that the smallest subnormal is \<open>1 / 2 ^ 149\<close>.
  Arithmetic is evaluated in binary32 itself, each operation rounding its exact result to
  nearest with ties to even.
\<close>

datatype float = Float (sign: bool) (expo: "8 word") (frac: "23 word")

definition is_nan :: "float \<Rightarrow> bool" where
  "is_nan x = (expo x = 255 \<and> frac x \<noteq> 0)"

definition is_inf :: "float \<Rightarrow> bool" where
  "is_inf x = (expo x = 255 \<and> frac x = 0)"

definition is_finite :: "float \<Rightarrow> bool" where
  "is_finite x = (expo x \<noteq> 255)"

definition significand :: "float \<Rightarrow> int" where
  "significand x = (if expo x = 0 then uint (frac x) else 2 ^ 23 + uint (frac x))"

definition valof :: "float \<Rightarrow> rat" where
  "valof x =
     (if sign x then - 1 else 1) * (of_int (significand x) * 2 ^ (unat (expo x) - 1)) / 2 ^ 149"

definition float_nan :: float where
  "float_nan = Float False 255 (2 ^ 22)"

definition float_infinity :: "bool \<Rightarrow> float" where
  "float_infinity s = Float s 255 0"

definition round_half_even :: "rat \<Rightarrow> int" where
  "round_half_even x =
     (let f = \<lfloor>x\<rfloor>; r = x - of_int f
      in if r < 1 / 2 then f else if 1 / 2 < r then f + 1 else if even f then f else f + 1)"

text \<open>
  Rounding an exact rational \<open>q\<close> to binary32.  The magnitude is taken in units of the
  smallest subnormal; \<open>k\<close> is the number of low bits that do not fit into a 24-bit
  significand, \<open>n\<close> the significand after rounding to nearest even.  A significand below
  \<open>2 ^ 23\<close> is a zero or a subnormal; one that rounds up to \<open>2 ^ 24\<close> moves to the next
  exponent; an exponent field of 255 or more is an overflow to infinity.  The flag \<open>z\<close>
  is the sign given to an exact zero.
\<close>

definition float_round :: "bool \<Rightarrow> rat \<Rightarrow> float" where
  "float_round z q =
     (let t = \<bar>q\<bar> * 2 ^ 149;
          k = nat (bitlen \<lfloor>t\<rfloor> - 24);
          n = round_half_even (t / 2 ^ k);
          s = (if q = 0 then z else q < 0)
      in if n < 2 ^ 23 then Float s 0 (word_of_int n)
         else if n < 2 ^ 24 then
           (if k + 1 < 255 then Float s (of_nat (k + 1)) (word_of_int (n - 2 ^ 23))
            else float_infinity s)
         else
           (if k + 2 < 255 then Float s (of_nat (k + 2)) 0 else float_infinity s))"

text \<open>A floating constant of the source, and the conversions from the integer types.\<close>

definition float_of_rat :: "rat \<Rightarrow> float" where
  "float_of_rat q = float_round False q"

definition float_of_sint :: "'a::len word \<Rightarrow> float" where
  "float_of_sint w = float_round False (of_int (sint w))"

definition float_of_nat :: "nat \<Rightarrow> float" where
  "float_of_nat n = float_round False (of_nat n)"

definition fmul :: "float \<Rightarrow> float \<Rightarrow> float" where
  "fmul x y =
     (if is_nan x \<or> is_nan y then float_nan
      else if is_inf x then (if is_finite y \<and> valof y = 0 then float_nan
                             else float_infinity (sign x \<noteq> sign y))
      else if is_inf y then (if valof x = 0 then float_nan
                             else float_infinity (sign x \<noteq> sign y))
      else float_round (sign x \<noteq> sign y) (valof x * valof y))"

definition fadd :: "float \<Rightarrow> float \<Rightarrow> float" where
  "fadd x y =
     (if is_nan x \<or> is_nan y then float_nan
      else if is_inf x then (if is_inf y \<and> sign x \<noteq> sign y then float_nan else x)
      else if is_inf y then y
      else float_round (sign x \<and> sign y) (valof x + valof y))"

definition fneg :: "float \<Rightarrow> float" where
  "fneg x = Float (\<not> sign x) (expo x) (frac x)"

definition fsub :: "float \<Rightarrow> float \<Rightarrow> float" where
  "fsub x y = fadd x (fneg y)"

definition fdiv :: "float \<Rightarrow> float \<Rightarrow> float" where
  "fdiv x y =
     (if is_nan x \<or> is_nan y then float_nan
      else if is_inf x then (if is_inf y then float_nan else float_infinity (sign x \<noteq> sign y))
      else if is_inf y then Float (sign x \<noteq> sign y) 0 0
      else if valof y = 0 then (if valof x = 0 then float_nan
                                else float_infinity (sign x \<noteq> sign y))
      else float_round (sign x \<noteq> sign y) (valof x / valof y))"

text \<open>The comparison \<^verbatim>\<open>>=\<close>: false as soon as an operand is a NaN.\<close>

definition fge :: "float \<Rightarrow> float \<Rightarrow> bool" where
  "fge x y =
     (\<not> is_nan x \<and> \<not> is_nan y \<and>
      (if is_inf x then (\<not> sign x \<or> (is_inf y \<and> sign y))
       else if is_inf y then sign y
       else valof y \<le> valof x))"

text \<open>
  Conversion of a float to a signed integer type of \<open>LENGTH('a)\<close> bits discards the
  fractional part.  When the operand is not finite or the integral part is not
  representable in the integer type, C leaves the behaviour undefined: the model returns
  \<open>None\<close>.
\<close>

definition truncate :: "rat \<Rightarrow> int" where
  "truncate q = (if 0 \<le> q then \<lfloor>q\<rfloor> else \<lceil>q\<rceil>)"

definition float_to_sint :: "float \<Rightarrow> 'a::len word option" where
  "float_to_sint x =
     (if is_finite x \<and> - (2 ^ (LENGTH('a) - 1)) \<le> truncate (valof x)
         \<and> truncate (valof x) < 2 ^ (LENGTH('a) - 1)
      then Some (word_of_int (truncate (valof x))) else None)"

section \<open>Conversion helpers (FixedPoint.c)\<close>

definition FixedPoint_FloatToFix16 ::
  "float \<Rightarrow> t_Fixed16 ptr \<Rightarrow> (Std_ReturnType \<times> t_Fixed16 ptr) option" where
  "FixedPoint_FloatToFix16 val outVal =
    (case outVal of
       NULL \<Rightarrow> Some (E_NOT_OK, NULL)
     | Ref _ \<Rightarrow>
        (let scaled_f = fmul val (float_of_nat SCALE_16) in
         case (if fge scaled_f (float_of_rat 0)
               then (float_to_sint (fadd scaled_f (float_of_rat (1 / 2))) :: sint32 option)
               else float_to_sint (fsub scaled_f (float_of_rat (1 / 2)))) of
           None \<Rightarrow> None
         | Some scaled_i \<Rightarrow>
            if (scast FIX16_MAX :: sint32) <s scaled_i
              then Some (E_NOT_OK, Ref (Some (scast (scast FIX16_MAX :: sint32))))
            else if scaled_i <s (scast FIX16_MIN :: sint32)
              then Some (E_NOT_OK, Ref (Some (scast (scast FIX16_MIN :: sint32))))
            else Some (E_OK, Ref (Some (scast scaled_i)))))"

definition FixedPoint_Fix16ToFloat :: "t_Fixed16 \<Rightarrow> float" where
  "FixedPoint_Fix16ToFloat val = fdiv (float_of_sint val) (float_of_nat SCALE_16)"

definition FixedPoint_FloatToFix8 ::
  "float \<Rightarrow> t_Fixed8 ptr \<Rightarrow> (Std_ReturnType \<times> t_Fixed8 ptr) option" where
  "FixedPoint_FloatToFix8 val outVal =
    (case outVal of
       NULL \<Rightarrow> Some (E_NOT_OK, NULL)
     | Ref _ \<Rightarrow>
        (let scaled_f = fmul val (float_of_nat SCALE_8) in
         case (if fge scaled_f (float_of_rat 0)
               then (float_to_sint (fadd scaled_f (float_of_rat (1 / 2))) :: sint16 option)
               else float_to_sint (fsub scaled_f (float_of_rat (1 / 2)))) of
           None \<Rightarrow> None
         | Some scaled_i \<Rightarrow>
            if (scast FIX8_MAX :: sint16) <s scaled_i
              then Some (E_NOT_OK, Ref (Some (scast (scast FIX8_MAX :: sint16))))
            else if scaled_i <s (scast FIX8_MIN :: sint16)
              then Some (E_NOT_OK, Ref (Some (scast (scast FIX8_MIN :: sint16))))
            else Some (E_OK, Ref (Some (scast scaled_i)))))"

definition FixedPoint_Fix8ToFloat :: "t_Fixed8 \<Rightarrow> float" where
  "FixedPoint_Fix8ToFloat val = fdiv (float_of_sint val) (float_of_nat SCALE_8)"

section \<open>Core operations on raw fixed-point values, 16 bit (FixedPoint.c)\<close>

text \<open>
  Each core function widens its operands, combines them, compares the widened value
  against the container bounds, clamps, sets the status and stores the narrowed value.
  With a null result pointer nothing is computed and \<open>E_NOT_OK\<close> is returned.
\<close>

definition FixedPoint_Add16_Core ::
  "t_Fixed16 \<Rightarrow> t_Fixed16 \<Rightarrow> t_Fixed16 ptr \<Rightarrow> Std_ReturnType \<times> t_Fixed16 ptr" where
  "FixedPoint_Add16_Core a b r =
    (case r of
       NULL \<Rightarrow> (E_NOT_OK, NULL)
     | Ref _ \<Rightarrow>
        (let tmp = (scast a :: sint32) + (scast b :: sint32) in
         if (scast FIX16_MAX :: sint32) <s tmp
           then (E_NOT_OK, Ref (Some (scast (scast FIX16_MAX :: sint32))))
         else if tmp <s (scast FIX16_MIN :: sint32)
           then (E_NOT_OK, Ref (Some (scast (scast FIX16_MIN :: sint32))))
         else (E_OK, Ref (Some (scast tmp)))))"

definition FixedPoint_Sub16_Core ::
  "t_Fixed16 \<Rightarrow> t_Fixed16 \<Rightarrow> t_Fixed16 ptr \<Rightarrow> Std_ReturnType \<times> t_Fixed16 ptr" where
  "FixedPoint_Sub16_Core a b r =
    (case r of
       NULL \<Rightarrow> (E_NOT_OK, NULL)
     | Ref _ \<Rightarrow>
        (let tmp = (scast a :: sint32) - (scast b :: sint32) in
         if (scast FIX16_MAX :: sint32) <s tmp
           then (E_NOT_OK, Ref (Some (scast (scast FIX16_MAX :: sint32))))
         else if tmp <s (scast FIX16_MIN :: sint32)
           then (E_NOT_OK, Ref (Some (scast (scast FIX16_MIN :: sint32))))
         else (E_OK, Ref (Some (scast tmp)))))"

definition FixedPoint_Mult16_Core ::
  "t_Fixed16 \<Rightarrow> t_Fixed16 \<Rightarrow> t_Fixed16 ptr \<Rightarrow> Std_ReturnType \<times> t_Fixed16 ptr" where
  "FixedPoint_Mult16_Core a b r =
    (case r of
       NULL \<Rightarrow> (E_NOT_OK, NULL)
     | Ref _ \<Rightarrow>
        (let tmp0 = (scast a :: sint64) * (scast b :: sint64);
             tmp =
               (if SHIFT_16 > 0 then
                  (let half = push_bit (SHIFT_16 - 1) (1 :: sint64);
                       neg = (if tmp0 <s 0 then 1 else 0 :: boolean);
                       mag0 = (if neg \<noteq> 0 then - tmp0 else tmp0);
                       mag = signed_drop_bit SHIFT_16 (mag0 + half)
                   in if neg \<noteq> 0 then - mag else mag)
                else tmp0)
         in
         if (scast FIX16_MAX :: sint64) <s tmp
           then (E_NOT_OK, Ref (Some (scast (scast FIX16_MAX :: sint64))))
         else if tmp <s (scast FIX16_MIN :: sint64)
           then (E_NOT_OK, Ref (Some (scast (scast FIX16_MIN :: sint64))))
         else (E_OK, Ref (Some (scast tmp)))))"

text \<open>
  The core division divides by the magnitude of \<open>b\<close> without checking it; for \<open>b = 0\<close>
  the C division is undefined, which the model returns as \<open>None\<close>.
\<close>

definition FixedPoint_Div16_Core ::
  "t_Fixed16 \<Rightarrow> t_Fixed16 \<Rightarrow> t_Fixed16 ptr \<Rightarrow> (Std_ReturnType \<times> t_Fixed16 ptr) option" where
  "FixedPoint_Div16_Core a b r =
    (case r of
       NULL \<Rightarrow> Some (E_NOT_OK, NULL)
     | Ref _ \<Rightarrow>
        (let neg = (if ((scast a :: sint32) XOR (scast b :: sint32)) <s 0 then 1 else 0 :: boolean);
             num_mag0 = (ucast (if a <s 0 then - (scast a :: sint64) else scast a) :: uint64);
             den_mag = (ucast (if b <s 0 then - (scast b :: sint64) else scast b) :: uint64);
             num_mag1 = push_bit SHIFT_16 num_mag0;
             num_mag = num_mag1 + drop_bit 1 den_mag
         in
         if den_mag = 0 then None
         else
          (let tmp0 = (ucast (num_mag div den_mag) :: sint64);
               tmp = (if neg \<noteq> 0 then - tmp0 else tmp0)
           in
           if (scast FIX16_MAX :: sint64) <s tmp
             then Some (E_NOT_OK, Ref (Some (scast (scast FIX16_MAX :: sint64))))
           else if tmp <s (scast FIX16_MIN :: sint64)
             then Some (E_NOT_OK, Ref (Some (scast (scast FIX16_MIN :: sint64))))
           else Some (E_OK, Ref (Some (scast tmp))))))"

section \<open>Core operations on raw fixed-point values, 8 bit (FixedPoint.c)\<close>

definition FixedPoint_Add8_Core ::
  "t_Fixed8 \<Rightarrow> t_Fixed8 \<Rightarrow> t_Fixed8 ptr \<Rightarrow> Std_ReturnType \<times> t_Fixed8 ptr" where
  "FixedPoint_Add8_Core a b r =
    (case r of
       NULL \<Rightarrow> (E_NOT_OK, NULL)
     | Ref _ \<Rightarrow>
        (let tmp = (scast a :: sint16) + (scast b :: sint16) in
         if (scast FIX8_MAX :: sint16) <s tmp
           then (E_NOT_OK, Ref (Some (scast (scast FIX8_MAX :: sint16))))
         else if tmp <s (scast FIX8_MIN :: sint16)
           then (E_NOT_OK, Ref (Some (scast (scast FIX8_MIN :: sint16))))
         else (E_OK, Ref (Some (scast tmp)))))"

definition FixedPoint_Sub8_Core ::
  "t_Fixed8 \<Rightarrow> t_Fixed8 \<Rightarrow> t_Fixed8 ptr \<Rightarrow> Std_ReturnType \<times> t_Fixed8 ptr" where
  "FixedPoint_Sub8_Core a b r =
    (case r of
       NULL \<Rightarrow> (E_NOT_OK, NULL)
     | Ref _ \<Rightarrow>
        (let tmp = (scast a :: sint16) - (scast b :: sint16) in
         if (scast FIX8_MAX :: sint16) <s tmp
           then (E_NOT_OK, Ref (Some (scast (scast FIX8_MAX :: sint16))))
         else if tmp <s (scast FIX8_MIN :: sint16)
           then (E_NOT_OK, Ref (Some (scast (scast FIX8_MIN :: sint16))))
         else (E_OK, Ref (Some (scast tmp)))))"

definition FixedPoint_Mult8_Core ::
  "t_Fixed8 \<Rightarrow> t_Fixed8 \<Rightarrow> t_Fixed8 ptr \<Rightarrow> Std_ReturnType \<times> t_Fixed8 ptr" where
  "FixedPoint_Mult8_Core a b r =
    (case r of
       NULL \<Rightarrow> (E_NOT_OK, NULL)
     | Ref _ \<Rightarrow>
        (let tmp0 = (scast a :: sint32) * (scast b :: sint32);
             tmp =
               (if SHIFT_8 > 0 then
                  (let half = push_bit (SHIFT_8 - 1) (1 :: sint32);
                       neg = (if tmp0 <s 0 then 1 else 0 :: boolean);
                       mag0 = (if neg \<noteq> 0 then - tmp0 else tmp0);
                       mag = signed_drop_bit SHIFT_8 (mag0 + half)
                   in if neg \<noteq> 0 then - mag else mag)
                else tmp0)
         in
         if (scast FIX8_MAX :: sint32) <s tmp
           then (E_NOT_OK, Ref (Some (scast (scast FIX8_MAX :: sint32))))
         else if tmp <s (scast FIX8_MIN :: sint32)
           then (E_NOT_OK, Ref (Some (scast (scast FIX8_MIN :: sint32))))
         else (E_OK, Ref (Some (scast tmp)))))"

definition FixedPoint_Div8_Core ::
  "t_Fixed8 \<Rightarrow> t_Fixed8 \<Rightarrow> t_Fixed8 ptr \<Rightarrow> (Std_ReturnType \<times> t_Fixed8 ptr) option" where
  "FixedPoint_Div8_Core a b r =
    (case r of
       NULL \<Rightarrow> Some (E_NOT_OK, NULL)
     | Ref _ \<Rightarrow>
        (let neg = (if ((scast a :: sint16) XOR (scast b :: sint16)) <s 0 then 1 else 0 :: boolean);
             num_mag0 = (ucast (if a <s 0 then - (scast a :: sint32) else scast a) :: uint32);
             den_mag = (ucast (if b <s 0 then - (scast b :: sint32) else scast b) :: uint32);
             num_mag1 = push_bit SHIFT_8 num_mag0;
             num_mag = num_mag1 + drop_bit 1 den_mag
         in
         if den_mag = 0 then None
         else
          (let tmp0 = (ucast (num_mag div den_mag) :: sint32);
               tmp = (if neg \<noteq> 0 then - tmp0 else tmp0)
           in
           if (scast FIX8_MAX :: sint32) <s tmp
             then Some (E_NOT_OK, Ref (Some (scast (scast FIX8_MAX :: sint32))))
           else if tmp <s (scast FIX8_MIN :: sint32)
             then Some (E_NOT_OK, Ref (Some (scast (scast FIX8_MIN :: sint32))))
           else Some (E_OK, Ref (Some (scast tmp))))))"

section \<open>Public operations (FixedPoint.c)\<close>

text \<open>
  Each public operation takes two floats and a pointer to the caller's result variable.
  The locals \<open>a\<close> and \<open>b\<close> are declared without initialiser and filled through their
  addresses by the conversion helpers; \<open>rFixed\<close> starts as 0.  Reading a variable that
  is still uninitialised, like every other undefined step, makes the call \<open>None\<close>.
\<close>

definition FixedPoint_Add16 ::
  "float \<Rightarrow> float \<Rightarrow> float ptr \<Rightarrow> (Std_ReturnType \<times> float ptr) option" where
  "FixedPoint_Add16 val1 val2 result =
    (case result of
       NULL \<Rightarrow> Some (E_NOT_OK, NULL)
     | Ref _ \<Rightarrow>
        do {
          (conv1, pa) \<leftarrow> FixedPoint_FloatToFix16 val1 (Ref None);
          (conv2, pb) \<leftarrow> FixedPoint_FloatToFix16 val2 (Ref None);
          a \<leftarrow> deref pa;
          b \<leftarrow> deref pb;
          let (core, pr) = FixedPoint_Add16_Core a b (Ref (Some 0));
          rFixed \<leftarrow> deref pr;
          let ret = (if conv1 = E_OK \<and> conv2 = E_OK \<and> core = E_OK then E_OK else E_NOT_OK);
          Some (ret, Ref (Some (FixedPoint_Fix16ToFloat rFixed)))
        })"


definition FixedPoint_Mult16 ::
  "float \<Rightarrow> float \<Rightarrow> float ptr \<Rightarrow> (Std_ReturnType \<times> float ptr) option" where
  "FixedPoint_Mult16 val1 val2 result =
    (case result of
       NULL \<Rightarrow> Some (E_NOT_OK, NULL)
     | Ref _ \<Rightarrow>
        do {
          (conv1, pa) \<leftarrow> FixedPoint_FloatToFix16 val1 (Ref None);
          (conv2, pb) \<leftarrow> FixedPoint_FloatToFix16 val2 (Ref None);
          a \<leftarrow> deref pa;
          b \<leftarrow> deref pb;
          let (core, pr) = FixedPoint_Mult16_Core a b (Ref (Some 0));
          rFixed \<leftarrow> deref pr;
          let ret = (if conv1 = E_OK \<and> conv2 = E_OK \<and> core = E_OK then E_OK else E_NOT_OK);
          Some (ret, Ref (Some (FixedPoint_Fix16ToFloat rFixed)))
        })"

definition FixedPoint_Div16 ::
  "float \<Rightarrow> float \<Rightarrow> float ptr \<Rightarrow> (Std_ReturnType \<times> float ptr) option" where
  "FixedPoint_Div16 val1 val2 result =
    (case result of
       NULL \<Rightarrow> Some (E_NOT_OK, NULL)
     | Ref _ \<Rightarrow>
        do {
          (conv2, pb) \<leftarrow> FixedPoint_FloatToFix16 val2 (Ref None);
          b \<leftarrow> deref pb;
          if b \<noteq> 0 then
            do {
              (conv1, pa) \<leftarrow> FixedPoint_FloatToFix16 val1 (Ref None);
              a \<leftarrow> deref pa;
              (core, pr) \<leftarrow> FixedPoint_Div16_Core a b (Ref (Some 0));
              rFixed \<leftarrow> deref pr;
              let ret = (if conv1 = E_OK \<and> conv2 = E_OK \<and> core = E_OK then E_OK else E_NOT_OK);
              Some (ret, Ref (Some (FixedPoint_Fix16ToFloat rFixed)))
            }
          else Some (E_NOT_OK, result)
        })"

definition FixedPoint_Add8 ::
  "float \<Rightarrow> float \<Rightarrow> float ptr \<Rightarrow> (Std_ReturnType \<times> float ptr) option" where
  "FixedPoint_Add8 val1 val2 result =
    (case result of
       NULL \<Rightarrow> Some (E_NOT_OK, NULL)
     | Ref _ \<Rightarrow>
        do {
          (conv1, pa) \<leftarrow> FixedPoint_FloatToFix8 val1 (Ref None);
          (conv2, pb) \<leftarrow> FixedPoint_FloatToFix8 val2 (Ref None);
          a \<leftarrow> deref pa;
          b \<leftarrow> deref pb;
          let (core, pr) = FixedPoint_Add8_Core a b (Ref (Some 0));
          rFixed \<leftarrow> deref pr;
          let ret = (if conv1 = E_OK \<and> conv2 = E_OK \<and> core = E_OK then E_OK else E_NOT_OK);
          Some (ret, Ref (Some (FixedPoint_Fix8ToFloat rFixed)))
        })"


definition FixedPoint_Mult8 ::
  "float \<Rightarrow> float \<Rightarrow> float ptr \<Rightarrow> (Std_ReturnType \<times> float ptr) option" where
  "FixedPoint_Mult8 val1 val2 result =
    (case result of
       NULL \<Rightarrow> Some (E_NOT_OK, NULL)
     | Ref _ \<Rightarrow>
        do {
          (conv1, pa) \<leftarrow> FixedPoint_FloatToFix8 val1 (Ref None);
          (conv2, pb) \<leftarrow> FixedPoint_FloatToFix8 val2 (Ref None);
          a \<leftarrow> deref pa;
          b \<leftarrow> deref pb;
          let (core, pr) = FixedPoint_Mult8_Core a b (Ref (Some 0));
          rFixed \<leftarrow> deref pr;
          let ret = (if conv1 = E_OK \<and> conv2 = E_OK \<and> core = E_OK then E_OK else E_NOT_OK);
          Some (ret, Ref (Some (FixedPoint_Fix8ToFloat rFixed)))
        })"

definition FixedPoint_Div8 ::
  "float \<Rightarrow> float \<Rightarrow> float ptr \<Rightarrow> (Std_ReturnType \<times> float ptr) option" where
  "FixedPoint_Div8 val1 val2 result =
    (case result of
       NULL \<Rightarrow> Some (E_NOT_OK, NULL)
     | Ref _ \<Rightarrow>
        do {
          (conv2, pb) \<leftarrow> FixedPoint_FloatToFix8 val2 (Ref None);
          b \<leftarrow> deref pb;
          if b \<noteq> 0 then
            do {
              (conv1, pa) \<leftarrow> FixedPoint_FloatToFix8 val1 (Ref None);
              a \<leftarrow> deref pa;
              (core, pr) \<leftarrow> FixedPoint_Div8_Core a b (Ref (Some 0));
              rFixed \<leftarrow> deref pr;
              let ret = (if conv1 = E_OK \<and> conv2 = E_OK \<and> core = E_OK then E_OK else E_NOT_OK);
              Some (ret, Ref (Some (FixedPoint_Fix8ToFloat rFixed)))
            }
          else Some (E_NOT_OK, result)
        })"

section \<open>Reference functions on unbounded integers\<close>

text \<open>
  The arithmetic of the core operations written on mathematical integers, where nothing
  can wrap around: clamping into a range, the rescaling of a product (magnitude plus half
  of the discarded unit, shifted right, sign restored), the rescaling of a quotient
  (shifted magnitude plus half the divisor's magnitude, divided, sign restored), and
  rounding of a rational to the nearest integer with ties away from zero.
\<close>

definition saturate :: "int \<Rightarrow> int \<Rightarrow> int \<Rightarrow> int" where
  "saturate lo hi v = (if hi < v then hi else if v < lo then lo else v)"

definition mult_rescale :: "nat \<Rightarrow> int \<Rightarrow> int" where
  "mult_rescale f p =
     (if f > 0 then (let m = (\<bar>p\<bar> + 2 ^ (f - 1)) div 2 ^ f in if p < 0 then - m else m) else p)"

definition div_rescale :: "nat \<Rightarrow> int \<Rightarrow> int \<Rightarrow> int" where
  "div_rescale f a b =
     (let q = (\<bar>a\<bar> * 2 ^ f + \<bar>b\<bar> div 2) div \<bar>b\<bar>
      in if (a < 0) \<noteq> (b < 0) then - q else q)"

definition round_half_away :: "rat \<Rightarrow> int" where
  "round_half_away x = (if 0 \<le> x then \<lfloor>x + 1 / 2\<rfloor> else - \<lfloor>- x + 1 / 2\<rfloor>)"


text \<open>
  The value of the local \<open>scaled_i\<close> of the conversion helpers when the saturation check
  is reached: the scaled input after adding or subtracting one half and converting to the
  integer temporary (\<open>sint32\<close> for the 16-bit format, \<open>sint16\<close> for the 8-bit format).
\<close>

definition FloatToFix16_scaled_i :: "float \<Rightarrow> sint32 option" where
  "FloatToFix16_scaled_i val =
     (let scaled_f = fmul val (float_of_nat SCALE_16) in
      if fge scaled_f (float_of_rat 0)
      then float_to_sint (fadd scaled_f (float_of_rat (1 / 2)))
      else float_to_sint (fsub scaled_f (float_of_rat (1 / 2))))"

definition FloatToFix8_scaled_i :: "float \<Rightarrow> sint16 option" where
  "FloatToFix8_scaled_i val =
     (let scaled_f = fmul val (float_of_nat SCALE_8) in
      if fge scaled_f (float_of_rat 0)
      then float_to_sint (fadd scaled_f (float_of_rat (1 / 2)))
      else float_to_sint (fsub scaled_f (float_of_rat (1 / 2))))"

text \<open>Clamping changes a value exactly when the value lies outside the range.\<close>

definition out_of_range :: "int \<Rightarrow> int \<Rightarrow> int \<Rightarrow> bool" where
  "out_of_range lo hi v = (v < lo \<or> hi < v)"

text \<open>
  The public Add, Sub and Mult operations as the specification words them, for a non-null
  output slot: both operands are converted (each conversion clamps its rounded value
  \<open>i\<close>, \<open>j\<close>), the clamped raw values are combined by the exact operation \<open>f\<close>, the
  result is clamped, converted back by \<open>to_float\<close> and written to the slot; the status is
  \<open>E_NOT_OK\<close> exactly when one of the three clampings changed its value.  The call has
  no defined result when a conversion has none.
\<close>

definition public_op_spec ::
  "int \<Rightarrow> int \<Rightarrow> (int \<Rightarrow> int \<Rightarrow> int) \<Rightarrow> ('a::len word \<Rightarrow> float) \<Rightarrow>
   'b::len word option \<Rightarrow> 'b word option \<Rightarrow> (Std_ReturnType \<times> float ptr) option" where
  "public_op_spec lo hi f to_float ci cj =
     (case ci of
        None \<Rightarrow> None
      | Some i \<Rightarrow>
         (case cj of
            None \<Rightarrow> None
          | Some j \<Rightarrow>
             (let a = saturate lo hi (sint i);
                  b = saturate lo hi (sint j);
                  v = f a b
              in Some (if out_of_range lo hi (sint i) \<or> out_of_range lo hi (sint j)
                          \<or> out_of_range lo hi v
                       then E_NOT_OK else E_OK,
                       Ref (Some (to_float (word_of_int (saturate lo hi v))))))))"

text \<open>The signed value of the raw fixed-point number a helper or core operation has stored.\<close>

definition stored_raw :: "Std_ReturnType \<times> 'a::len word ptr \<Rightarrow> int option" where
  "stored_raw res = map_option sint (deref (snd res))"

text \<open>
  The floats for which the conversion of the rounded scaled value to the integer temporary
  is defined in C: finite numbers whose scaled value, after one half has been added or
  subtracted and the sum rounded to a float, has an integral part that the temporary
  holds.  For the 16-bit format the temporary is \<open>sint32\<close> and the scaled value has to
  lie in \<open>[- 2 ^ 31, 2 ^ 31)\<close>; for the 8-bit format the temporary is \<open>sint16\<close> and the
  scaled value has to lie strictly between \<open>- 32768 - 1 / 2\<close> and \<open>32767 + 1 / 2\<close>.
\<close>

definition convertible16 :: "float \<Rightarrow> bool" where
  "convertible16 x =
     (is_finite x \<and> - (2 ^ 31) \<le> valof x * of_nat SCALE_16 \<and> valof x * of_nat SCALE_16 < 2 ^ 31)"

definition convertible8 :: "float \<Rightarrow> bool" where
  "convertible8 x =
     (is_finite x \<and> - 32768 - 1 / 2 < valof x * of_nat SCALE_8
      \<and> valof x * of_nat SCALE_8 < 32767 + 1 / 2)"


section \<open>The core operations compute the reference functions\<close>

subsection \<open>Signed and unsigned values of word expressions\<close>

lemma sint16_bounds: "- 32768 \<le> sint (a :: 16 word) \<and> sint a \<le> 32767"
  using sint_ge[of a] sint_lt[of a] by simp

lemma sint8_bounds: "- 128 \<le> sint (a :: 8 word) \<and> sint a \<le> 127"
  using sint_ge[of a] sint_lt[of a] by simp

lemma sint_add_no_wrap:
  fixes x y :: "'a::len word"
  assumes "- (2 ^ (LENGTH('a) - 1)) \<le> sint x + sint y" "sint x + sint y < 2 ^ (LENGTH('a) - 1)"
  shows "sint (x + y) = sint x + sint y"
  using assms by (simp add: sint_word_add signed_take_bit_int_eq_self)

lemma sint_diff_no_wrap:
  fixes x y :: "'a::len word"
  assumes "- (2 ^ (LENGTH('a) - 1)) \<le> sint x - sint y" "sint x - sint y < 2 ^ (LENGTH('a) - 1)"
  shows "sint (x - y) = sint x - sint y"
  using assms by (simp add: sint_word_diff signed_take_bit_int_eq_self)

lemma sint_mult_no_wrap:
  fixes x y :: "'a::len word"
  assumes "- (2 ^ (LENGTH('a) - 1)) \<le> sint x * sint y" "sint x * sint y < 2 ^ (LENGTH('a) - 1)"
  shows "sint (x * y) = sint x * sint y"
  using assms by (simp add: sint_word_mult signed_take_bit_int_eq_self)

lemma sint_minus_no_wrap:
  fixes x :: "'a::len word"
  assumes "- (2 ^ (LENGTH('a) - 1)) < sint x"
  shows "sint (- x) = - sint x"
  using assms sint_lt[of x] by (simp add: sint_word_minus signed_take_bit_int_eq_self)

lemma sint_up_scast_eq:
  fixes a :: "'a::len word"
  assumes "LENGTH('a) \<le> LENGTH('b::len)"
  shows "sint (scast a :: 'b word) = sint a"
  by (rule sint_up_scast) (simp add: is_up assms)

lemma xor_sign:
  fixes x y :: "'a::len word"
  shows "((x XOR y) <s 0) = ((sint x < 0) \<noteq> (sint y < 0))"
  by (simp add: word_sless_alt bit_xor_iff flip: bit_last_iff)

lemma uint_eq_sint_nonneg:
  fixes w :: "'a::len word"
  assumes "0 \<le> sint w"
  shows "uint w = sint w"
proof -
  have "sint w < 2 ^ LENGTH('a)"
    using sint_lt[of w] by (rule less_le_trans) simp
  then show ?thesis using assms by (simp add: uint_sint take_bit_int_eq_self)
qed

lemma sint_eq_uint_small:
  fixes w :: "'a::len word"
  assumes "uint w < 2 ^ (LENGTH('a) - 1)"
  shows "sint w = uint w"
proof -
  have "- (2 ^ (LENGTH('a) - Suc 0)) \<le> uint w"
    by (rule order_trans[of _ 0]) simp_all
  then show ?thesis using assms by (simp add: sint_uint signed_take_bit_int_eq_self)
qed

lemma int_div_le_self0:
  fixes x k :: int
  assumes "0 \<le> x"
  shows "x div k \<le> x"
proof (cases "x = 0")
  case True
  then show ?thesis by simp
next
  case False
  with assms have "0 < x" by simp
  then show ?thesis by (rule int_div_le_self)
qed

lemma abs_prod_bound:
  fixes x y :: int
  assumes "\<bar>x\<bar> \<le> m" "\<bar>y\<bar> \<le> n"
  shows "\<bar>x * y\<bar> \<le> m * n"
  using assms by (simp add: abs_mult mult_mono)

subsection \<open>The saturation block\<close>

lemma saturate_range: "lo \<le> hi \<Longrightarrow> lo \<le> saturate lo hi v \<and> saturate lo hi v \<le> hi"
  by (simp add: saturate_def)

lemma saturate_store16_32:
  fixes T :: "32 word"
  shows "(if 32767 <s T then (E_NOT_OK, Ref (Some 32767))
      else if T <s - 32768 then (E_NOT_OK, Ref (Some (- 32768)))
      else (E_OK, Ref (Some (scast T :: 16 word))))
    = (if saturate (- 32768) 32767 (sint T) = sint T then E_OK else E_NOT_OK,
       Ref (Some (word_of_int (saturate (- 32768) 32767 (sint T)))))"
proof -
  have sc: "(scast T :: 16 word) = word_of_int (sint T)"
    by (simp only: scast_eq)
  show ?thesis
    unfolding word_sless_alt sc saturate_def
    by (simp add: E_OK_def E_NOT_OK_def)
qed

lemma saturate_store16_64:
  fixes T :: "64 word"
  shows "(if 32767 <s T then (E_NOT_OK, Ref (Some 32767))
      else if T <s - 32768 then (E_NOT_OK, Ref (Some (- 32768)))
      else (E_OK, Ref (Some (scast T :: 16 word))))
    = (if saturate (- 32768) 32767 (sint T) = sint T then E_OK else E_NOT_OK,
       Ref (Some (word_of_int (saturate (- 32768) 32767 (sint T)))))"
proof -
  have sc: "(scast T :: 16 word) = word_of_int (sint T)"
    by (simp only: scast_eq)
  show ?thesis
    unfolding word_sless_alt sc saturate_def
    by (simp add: E_OK_def E_NOT_OK_def)
qed

lemma saturate_store8_16:
  fixes T :: "16 word"
  shows "(if 127 <s T then (E_NOT_OK, Ref (Some 127))
      else if T <s - 128 then (E_NOT_OK, Ref (Some (- 128)))
      else (E_OK, Ref (Some (scast T :: 8 word))))
    = (if saturate (- 128) 127 (sint T) = sint T then E_OK else E_NOT_OK,
       Ref (Some (word_of_int (saturate (- 128) 127 (sint T)))))"
proof -
  have sc: "(scast T :: 8 word) = word_of_int (sint T)"
    by (simp only: scast_eq)
  show ?thesis
    unfolding word_sless_alt sc saturate_def
    by (simp add: E_OK_def E_NOT_OK_def)
qed

lemma saturate_store8_32:
  fixes T :: "32 word"
  shows "(if 127 <s T then (E_NOT_OK, Ref (Some 127))
      else if T <s - 128 then (E_NOT_OK, Ref (Some (- 128)))
      else (E_OK, Ref (Some (scast T :: 8 word))))
    = (if saturate (- 128) 127 (sint T) = sint T then E_OK else E_NOT_OK,
       Ref (Some (word_of_int (saturate (- 128) 127 (sint T)))))"
proof -
  have sc: "(scast T :: 8 word) = word_of_int (sint T)"
    by (simp only: scast_eq)
  show ?thesis
    unfolding word_sless_alt sc saturate_def
    by (simp add: E_OK_def E_NOT_OK_def)
qed


lemma sint_saturate16: "sint (word_of_int (saturate (- 32768) 32767 v) :: 16 word) = saturate (- 32768) 32767 v"
  using saturate_range[of "- 32768" 32767 v]
  by (simp add: sint_sbintrunc' signed_take_bit_int_eq_self)

lemma sint_saturate8: "sint (word_of_int (saturate (- 128) 127 v) :: 8 word) = saturate (- 128) 127 v"
  using saturate_range[of "- 128" 127 v]
  by (simp add: sint_sbintrunc' signed_take_bit_int_eq_self)

subsection \<open>Addition and subtraction\<close>

lemma Add16_Core_eq:
  "FixedPoint_Add16_Core a b (Ref c) =
     (if saturate (- 32768) 32767 (sint a + sint b) = sint a + sint b then E_OK else E_NOT_OK,
      Ref (Some (word_of_int (saturate (- 32768) 32767 (sint a + sint b)))))"
proof -
  define T :: sint32 where "T = scast a + scast b"
  have T: "sint T = sint a + sint b"
    unfolding T_def using sint16_bounds[of a] sint16_bounds[of b]
    by (subst sint_add_no_wrap) (simp_all add: sint_up_scast_eq)
  have "FixedPoint_Add16_Core a b (Ref c) =
     (if 32767 <s T then (E_NOT_OK, Ref (Some 32767))
      else if T <s - 32768 then (E_NOT_OK, Ref (Some (- 32768)))
      else (E_OK, Ref (Some (scast T))))"
    unfolding FixedPoint_Add16_Core_def T_def
    by (simp add: Let_def FIX16_MAX_def FIX16_MIN_def)
  then show ?thesis unfolding saturate_store16_32 T .
qed

lemma Sub16_Core_eq:
  "FixedPoint_Sub16_Core a b (Ref c) =
     (if saturate (- 32768) 32767 (sint a - sint b) = sint a - sint b then E_OK else E_NOT_OK,
      Ref (Some (word_of_int (saturate (- 32768) 32767 (sint a - sint b)))))"
proof -
  define T :: sint32 where "T = scast a - scast b"
  have T: "sint T = sint a - sint b"
    unfolding T_def using sint16_bounds[of a] sint16_bounds[of b]
    by (subst sint_diff_no_wrap) (simp_all add: sint_up_scast_eq)
  have "FixedPoint_Sub16_Core a b (Ref c) =
     (if 32767 <s T then (E_NOT_OK, Ref (Some 32767))
      else if T <s - 32768 then (E_NOT_OK, Ref (Some (- 32768)))
      else (E_OK, Ref (Some (scast T))))"
    unfolding FixedPoint_Sub16_Core_def T_def
    by (simp add: Let_def FIX16_MAX_def FIX16_MIN_def)
  then show ?thesis unfolding saturate_store16_32 T .
qed

lemma Add8_Core_eq:
  "FixedPoint_Add8_Core a b (Ref c) =
     (if saturate (- 128) 127 (sint a + sint b) = sint a + sint b then E_OK else E_NOT_OK,
      Ref (Some (word_of_int (saturate (- 128) 127 (sint a + sint b)))))"
proof -
  define T :: sint16 where "T = scast a + scast b"
  have T: "sint T = sint a + sint b"
    unfolding T_def using sint8_bounds[of a] sint8_bounds[of b]
    by (subst sint_add_no_wrap) (simp_all add: sint_up_scast_eq)
  have "FixedPoint_Add8_Core a b (Ref c) =
     (if 127 <s T then (E_NOT_OK, Ref (Some 127))
      else if T <s - 128 then (E_NOT_OK, Ref (Some (- 128)))
      else (E_OK, Ref (Some (scast T))))"
    unfolding FixedPoint_Add8_Core_def T_def
    by (simp add: Let_def FIX8_MAX_def FIX8_MIN_def)
  then show ?thesis unfolding saturate_store8_16 T .
qed

lemma Sub8_Core_eq:
  "FixedPoint_Sub8_Core a b (Ref c) =
     (if saturate (- 128) 127 (sint a - sint b) = sint a - sint b then E_OK else E_NOT_OK,
      Ref (Some (word_of_int (saturate (- 128) 127 (sint a - sint b)))))"
proof -
  define T :: sint16 where "T = scast a - scast b"
  have T: "sint T = sint a - sint b"
    unfolding T_def using sint8_bounds[of a] sint8_bounds[of b]
    by (subst sint_diff_no_wrap) (simp_all add: sint_up_scast_eq)
  have "FixedPoint_Sub8_Core a b (Ref c) =
     (if 127 <s T then (E_NOT_OK, Ref (Some 127))
      else if T <s - 128 then (E_NOT_OK, Ref (Some (- 128)))
      else (E_OK, Ref (Some (scast T))))"
    unfolding FixedPoint_Sub8_Core_def T_def
    by (simp add: Let_def FIX8_MAX_def FIX8_MIN_def)
  then show ?thesis unfolding saturate_store8_16 T .
qed

subsection \<open>Multiplication\<close>

lemma round_shift64:
  fixes t :: "64 word"
  assumes "\<bar>sint t\<bar> \<le> 1073741824"
  shows "sint (if t <s 0 then - signed_drop_bit 8 (- t + 128) else signed_drop_bit 8 (t + 128))
       = mult_rescale 8 (sint t)"
proof (cases "sint t < 0")
  case True
  have 1: "sint (- t) = - sint t" using assms by (intro sint_minus_no_wrap) simp
  have 2: "sint (- t + 128) = - sint t + 128"
    using assms by (subst sint_add_no_wrap) (simp_all add: 1)
  have 3: "sint (signed_drop_bit 8 (- t + 128)) = (- sint t + 128) div 256"
    by (simp only: sint_signed_drop_bit_eq 2 drop_bit_eq_div) simp
  have "0 \<le> (- sint t + 128) div 256" using True by (simp add: pos_imp_zdiv_nonneg_iff)
  then have "- (2 ^ (LENGTH(64) - 1)) < sint (signed_drop_bit 8 (- t + 128))"
    unfolding 3 by simp
  then have 4: "sint (- signed_drop_bit 8 (- t + 128)) = - ((- sint t + 128) div 256)"
    by (simp only: sint_minus_no_wrap 3)
  show ?thesis using True unfolding mult_rescale_def Let_def word_sless_alt
    by (simp only: 4 sint_0 if_True abs_if) simp
next
  case False
  have 2: "sint (t + 128) = sint t + 128"
    using assms by (subst sint_add_no_wrap) simp_all
  have 3: "sint (signed_drop_bit 8 (t + 128)) = (sint t + 128) div 256"
    by (simp only: sint_signed_drop_bit_eq 2 drop_bit_eq_div) simp
  show ?thesis using False unfolding mult_rescale_def Let_def word_sless_alt
    by (simp only: 3 sint_0 if_False abs_if) simp
qed

lemma prod16_bound: "\<bar>sint (a :: 16 word) * sint (b :: 16 word)\<bar> \<le> 1073741824"
proof -
  have "\<bar>sint a\<bar> \<le> 32768" "\<bar>sint b\<bar> \<le> 32768"
    using sint16_bounds[of a] sint16_bounds[of b] by auto
  from abs_prod_bound[OF this] show ?thesis by simp
qed

lemma Mult16_Core_eq:
  "FixedPoint_Mult16_Core a b (Ref c) =
     (if saturate (- 32768) 32767 (mult_rescale SHIFT_16 (sint a * sint b))
           = mult_rescale SHIFT_16 (sint a * sint b) then E_OK else E_NOT_OK,
      Ref (Some (word_of_int (saturate (- 32768) 32767 (mult_rescale SHIFT_16 (sint a * sint b))))))"
proof -
  define t :: "64 word" where "t = scast a * scast b"
  define T :: "64 word" where
    "T = (if t <s 0 then - signed_drop_bit 8 (- t + 128) else signed_drop_bit 8 (t + 128))"
  have t: "sint t = sint a * sint b"
    unfolding t_def using prod16_bound[of a b]
    by (subst sint_mult_no_wrap) (simp_all add: sint_up_scast_eq)
  have T: "sint T = mult_rescale SHIFT_16 (sint a * sint b)"
    unfolding T_def SHIFT_16_def using prod16_bound[of a b]
    by (subst round_shift64) (simp_all add: t)
  have "FixedPoint_Mult16_Core a b (Ref c) =
     (if 32767 <s T then (E_NOT_OK, Ref (Some 32767))
      else if T <s - 32768 then (E_NOT_OK, Ref (Some (- 32768)))
      else (E_OK, Ref (Some (scast T))))"
    unfolding FixedPoint_Mult16_Core_def T_def t_def
    by (simp add: Let_def SHIFT_16_def FIX16_MAX_def FIX16_MIN_def)
  then show ?thesis unfolding saturate_store16_64 T .
qed

lemma round_shift32:
  fixes t :: "32 word"
  assumes "\<bar>sint t\<bar> \<le> 16384"
  shows "sint (if t <s 0 then - signed_drop_bit 4 (- t + 8) else signed_drop_bit 4 (t + 8))
       = mult_rescale 4 (sint t)"
proof (cases "sint t < 0")
  case True
  have 1: "sint (- t) = - sint t" using assms by (intro sint_minus_no_wrap) simp
  have 2: "sint (- t + 8) = - sint t + 8"
    using assms by (subst sint_add_no_wrap) (simp_all add: 1)
  have 3: "sint (signed_drop_bit 4 (- t + 8)) = (- sint t + 8) div 16"
    by (simp only: sint_signed_drop_bit_eq 2 drop_bit_eq_div) simp
  have "0 \<le> (- sint t + 8) div 16" using True by (simp add: pos_imp_zdiv_nonneg_iff)
  then have "- (2 ^ (LENGTH(32) - 1)) < sint (signed_drop_bit 4 (- t + 8))"
    unfolding 3 by simp
  then have 4: "sint (- signed_drop_bit 4 (- t + 8)) = - ((- sint t + 8) div 16)"
    by (simp only: sint_minus_no_wrap 3)
  show ?thesis using True unfolding mult_rescale_def Let_def word_sless_alt
    by (simp only: 4 sint_0 if_True abs_if) simp
next
  case False
  have 2: "sint (t + 8) = sint t + 8"
    using assms by (subst sint_add_no_wrap) simp_all
  have 3: "sint (signed_drop_bit 4 (t + 8)) = (sint t + 8) div 16"
    by (simp only: sint_signed_drop_bit_eq 2 drop_bit_eq_div) simp
  show ?thesis using False unfolding mult_rescale_def Let_def word_sless_alt
    by (simp only: 3 sint_0 if_False abs_if) simp
qed

lemma prod8_bound: "\<bar>sint (a :: 8 word) * sint (b :: 8 word)\<bar> \<le> 16384"
proof -
  have "\<bar>sint a\<bar> \<le> 128" "\<bar>sint b\<bar> \<le> 128"
    using sint8_bounds[of a] sint8_bounds[of b] by auto
  from abs_prod_bound[OF this] show ?thesis by simp
qed

lemma Mult8_Core_eq:
  "FixedPoint_Mult8_Core a b (Ref c) =
     (if saturate (- 128) 127 (mult_rescale SHIFT_8 (sint a * sint b))
           = mult_rescale SHIFT_8 (sint a * sint b) then E_OK else E_NOT_OK,
      Ref (Some (word_of_int (saturate (- 128) 127 (mult_rescale SHIFT_8 (sint a * sint b))))))"
proof -
  define t :: "32 word" where "t = scast a * scast b"
  define T :: "32 word" where
    "T = (if t <s 0 then - signed_drop_bit 4 (- t + 8) else signed_drop_bit 4 (t + 8))"
  have t: "sint t = sint a * sint b"
    unfolding t_def using prod8_bound[of a b]
    by (subst sint_mult_no_wrap) (simp_all add: sint_up_scast_eq)
  have T: "sint T = mult_rescale SHIFT_8 (sint a * sint b)"
    unfolding T_def SHIFT_8_def using prod8_bound[of a b]
    by (subst round_shift32) (simp_all add: t)
  have "FixedPoint_Mult8_Core a b (Ref c) =
     (if 127 <s T then (E_NOT_OK, Ref (Some 127))
      else if T <s - 128 then (E_NOT_OK, Ref (Some (- 128)))
      else (E_OK, Ref (Some (scast T))))"
    unfolding FixedPoint_Mult8_Core_def T_def t_def
    by (simp add: Let_def SHIFT_8_def FIX8_MAX_def FIX8_MIN_def)
  then show ?thesis unfolding saturate_store8_32 T .
qed

subsection \<open>Division\<close>

lemma mag64:
  fixes a :: "16 word"
  shows "uint (ucast (if a <s 0 then - (scast a :: 64 word) else scast a) :: 64 word) = \<bar>sint a\<bar>"
proof -
  define w :: "64 word" where "w = (if a <s 0 then - scast a else scast a)"
  have "sint w = \<bar>sint a\<bar>"
    using sint16_bounds[of a]
    by (simp add: w_def word_sless_alt sint_minus_no_wrap sint_up_scast_eq)
  then have "uint w = \<bar>sint a\<bar>" by (simp add: uint_eq_sint_nonneg)
  then show ?thesis by (simp add: w_def)
qed

lemma Div16_Core_eq:
  "FixedPoint_Div16_Core a b (Ref c) =
     (if b = 0 then None
      else Some (if saturate (- 32768) 32767 (div_rescale SHIFT_16 (sint a) (sint b))
                      = div_rescale SHIFT_16 (sint a) (sint b) then E_OK else E_NOT_OK,
                 Ref (Some (word_of_int (saturate (- 32768) 32767 (div_rescale SHIFT_16 (sint a) (sint b)))))))"
proof -
  define N :: "64 word" where "N = ucast (if a <s 0 then - (scast a :: 64 word) else scast a)"
  define D :: "64 word" where "D = ucast (if b <s 0 then - (scast b :: 64 word) else scast b)"
  define Q :: "64 word" where "Q = (push_bit 8 N + drop_bit 1 D) div D"
  define q where "q = (\<bar>sint a\<bar> * 256 + \<bar>sint b\<bar> div 2) div \<bar>sint b\<bar>"
  define neg where "neg = (((scast a :: 32 word) XOR (scast b :: 32 word)) <s 0)"
  define T :: "64 word" where "T = (if neg then - Q else Q)"
  have neg: "neg = ((sint a < 0) \<noteq> (sint b < 0))"
    unfolding neg_def by (simp add: xor_sign sint_up_scast_eq)
  have N: "uint N = \<bar>sint a\<bar>" unfolding N_def by (rule mag64)
  have D: "uint D = \<bar>sint b\<bar>" unfolding D_def by (rule mag64)
  have D0: "(D = 0) = (b = 0)"
  proof -
    have "(D = 0) = (uint D = 0)" by (simp add: uint_0_iff)
    also have "\<dots> = (sint b = 0)" by (simp add: D)
    also have "\<dots> = (b = 0)" by (simp add: signed_eq_0_iff)
    finally show ?thesis .
  qed
  have ab: "\<bar>sint a\<bar> \<le> 32768" "\<bar>sint b\<bar> \<le> 32768"
    using sint16_bounds[of a] sint16_bounds[of b] by auto
  have pb: "uint (push_bit 8 N) = \<bar>sint a\<bar> * 256"
  proof -
    have "uint (push_bit 8 N) = take_bit LENGTH(64) (push_bit 8 (uint N))"
      by (rule unsigned_push_bit_eq)
    also have "\<dots> = \<bar>sint a\<bar> * 256"
      using ab by (simp add: N push_bit_eq_mult take_bit_int_eq_self)
    finally show ?thesis .
  qed
  have dd: "uint (drop_bit 1 D) = \<bar>sint b\<bar> div 2"
  proof -
    have "uint (drop_bit 1 D) = drop_bit 1 (take_bit LENGTH(64) (uint D))"
      by (rule unsigned_drop_bit_eq)
    also have "\<dots> = \<bar>sint b\<bar> div 2"
      using ab by (simp add: D drop_bit_eq_div take_bit_int_eq_self)
    finally show ?thesis .
  qed
  have num: "uint (push_bit 8 N + drop_bit 1 D) = \<bar>sint a\<bar> * 256 + \<bar>sint b\<bar> div 2"
  proof -
    have "uint (push_bit 8 N + drop_bit 1 D)
        = (uint (push_bit 8 N) + uint (drop_bit 1 D)) mod 2 ^ LENGTH(64)"
      by (rule uint_word_ariths)
    also have "\<dots> = \<bar>sint a\<bar> * 256 + \<bar>sint b\<bar> div 2"
      unfolding pb dd using ab by simp
    finally show ?thesis .
  qed
  have Q: "uint Q = q"
    unfolding Q_def q_def by (simp only: uint_div num D)
  have q0: "0 \<le> q" unfolding q_def by (simp add: div_int_pos_iff)
  have qb: "q \<le> 8404992"
  proof -
    have "q \<le> \<bar>sint a\<bar> * 256 + \<bar>sint b\<bar> div 2"
      unfolding q_def by (rule int_div_le_self0) simp
    also have "\<dots> \<le> 8404992" using ab by linarith
    finally show ?thesis .
  qed
  have sQ: "sint Q = q" using q0 qb Q by (simp add: sint_eq_uint_small)
  have T: "sint T = div_rescale SHIFT_16 (sint a) (sint b)"
    unfolding T_def div_rescale_def SHIFT_16_def Let_def neg using q0 qb
    by (simp add: sint_minus_no_wrap sQ q_def)
  have "FixedPoint_Div16_Core a b (Ref c) =
     (if D = 0 then None
      else Some (if 32767 <s T then (E_NOT_OK, Ref (Some 32767))
      else if T <s - 32768 then (E_NOT_OK, Ref (Some (- 32768)))
      else (E_OK, Ref (Some (scast T)))))"
    unfolding FixedPoint_Div16_Core_def T_def Q_def N_def D_def neg_def
    by (simp add: Let_def SHIFT_16_def FIX16_MAX_def FIX16_MIN_def)
  then show ?thesis unfolding saturate_store16_64 T D0 .
qed

lemma mag32:
  fixes a :: "8 word"
  shows "uint (ucast (if a <s 0 then - (scast a :: 32 word) else scast a) :: 32 word) = \<bar>sint a\<bar>"
proof -
  define w :: "32 word" where "w = (if a <s 0 then - scast a else scast a)"
  have "sint w = \<bar>sint a\<bar>"
    using sint8_bounds[of a]
    by (simp add: w_def word_sless_alt sint_minus_no_wrap sint_up_scast_eq)
  then have "uint w = \<bar>sint a\<bar>" by (simp add: uint_eq_sint_nonneg)
  then show ?thesis by (simp add: w_def)
qed

lemma Div8_Core_eq:
  "FixedPoint_Div8_Core a b (Ref c) =
     (if b = 0 then None
      else Some (if saturate (- 128) 127 (div_rescale SHIFT_8 (sint a) (sint b))
                      = div_rescale SHIFT_8 (sint a) (sint b) then E_OK else E_NOT_OK,
                 Ref (Some (word_of_int (saturate (- 128) 127 (div_rescale SHIFT_8 (sint a) (sint b)))))))"
proof -
  define N :: "32 word" where "N = ucast (if a <s 0 then - (scast a :: 32 word) else scast a)"
  define D :: "32 word" where "D = ucast (if b <s 0 then - (scast b :: 32 word) else scast b)"
  define Q :: "32 word" where "Q = (push_bit 4 N + drop_bit 1 D) div D"
  define q where "q = (\<bar>sint a\<bar> * 16 + \<bar>sint b\<bar> div 2) div \<bar>sint b\<bar>"
  define neg where "neg = (((scast a :: 16 word) XOR (scast b :: 16 word)) <s 0)"
  define T :: "32 word" where "T = (if neg then - Q else Q)"
  have neg: "neg = ((sint a < 0) \<noteq> (sint b < 0))"
    unfolding neg_def by (simp add: xor_sign sint_up_scast_eq)
  have N: "uint N = \<bar>sint a\<bar>" unfolding N_def by (rule mag32)
  have D: "uint D = \<bar>sint b\<bar>" unfolding D_def by (rule mag32)
  have D0: "(D = 0) = (b = 0)"
  proof -
    have "(D = 0) = (uint D = 0)" by (simp add: uint_0_iff)
    also have "\<dots> = (sint b = 0)" by (simp add: D)
    also have "\<dots> = (b = 0)" by (simp add: signed_eq_0_iff)
    finally show ?thesis .
  qed
  have ab: "\<bar>sint a\<bar> \<le> 128" "\<bar>sint b\<bar> \<le> 128"
    using sint8_bounds[of a] sint8_bounds[of b] by auto
  have pb: "uint (push_bit 4 N) = \<bar>sint a\<bar> * 16"
  proof -
    have "uint (push_bit 4 N) = take_bit LENGTH(32) (push_bit 4 (uint N))"
      by (rule unsigned_push_bit_eq)
    also have "\<dots> = \<bar>sint a\<bar> * 16"
      using ab by (simp add: N push_bit_eq_mult take_bit_int_eq_self)
    finally show ?thesis .
  qed
  have dd: "uint (drop_bit 1 D) = \<bar>sint b\<bar> div 2"
  proof -
    have "uint (drop_bit 1 D) = drop_bit 1 (take_bit LENGTH(32) (uint D))"
      by (rule unsigned_drop_bit_eq)
    also have "\<dots> = \<bar>sint b\<bar> div 2"
      using ab by (simp add: D drop_bit_eq_div take_bit_int_eq_self)
    finally show ?thesis .
  qed
  have num: "uint (push_bit 4 N + drop_bit 1 D) = \<bar>sint a\<bar> * 16 + \<bar>sint b\<bar> div 2"
  proof -
    have "uint (push_bit 4 N + drop_bit 1 D)
        = (uint (push_bit 4 N) + uint (drop_bit 1 D)) mod 2 ^ LENGTH(32)"
      by (rule uint_word_ariths)
    also have "\<dots> = \<bar>sint a\<bar> * 16 + \<bar>sint b\<bar> div 2"
      unfolding pb dd using ab by simp
    finally show ?thesis .
  qed
  have Q: "uint Q = q"
    unfolding Q_def q_def by (simp only: uint_div num D)
  have q0: "0 \<le> q" unfolding q_def by (simp add: div_int_pos_iff)
  have qb: "q \<le> 2112"
  proof -
    have "q \<le> \<bar>sint a\<bar> * 16 + \<bar>sint b\<bar> div 2"
      unfolding q_def by (rule int_div_le_self0) simp
    also have "\<dots> \<le> 2112" using ab by linarith
    finally show ?thesis .
  qed
  have sQ: "sint Q = q" using q0 qb Q by (simp add: sint_eq_uint_small)
  have T: "sint T = div_rescale SHIFT_8 (sint a) (sint b)"
    unfolding T_def div_rescale_def SHIFT_8_def Let_def neg using q0 qb
    by (simp add: sint_minus_no_wrap sQ q_def)
  have "FixedPoint_Div8_Core a b (Ref c) =
     (if D = 0 then None
      else Some (if 127 <s T then (E_NOT_OK, Ref (Some 127))
      else if T <s - 128 then (E_NOT_OK, Ref (Some (- 128)))
      else (E_OK, Ref (Some (scast T)))))"
    unfolding FixedPoint_Div8_Core_def T_def Q_def N_def D_def neg_def
    by (simp add: Let_def SHIFT_8_def FIX8_MAX_def FIX8_MIN_def)
  then show ?thesis unfolding saturate_store8_32 T D0 .
qed

subsection \<open>Rounding of the rescaled product\<close>

lemma floor_int_plus_half: "\<lfloor>(of_int k :: rat) + 1 / 2\<rfloor> = k"
  by (rule floor_unique) simp_all

lemma mult_rescale_round_half_away:
  "mult_rescale f p = round_half_away (of_int p / 2 ^ f)"
proof (cases "f = 0")
  case True
  from floor_int_plus_half[of p] floor_int_plus_half[of "- p"] True show ?thesis
    by (simp add: mult_rescale_def round_half_away_def)
next
  case False
  then obtain g where f: "f = Suc g" by (cases f) auto
  define x :: rat where "x = of_int p / 2 ^ f"
  define M where "M = (\<bar>p\<bar> + 2 ^ (f - 1)) div 2 ^ f"
  have half: "(1 :: rat) / 2 = 2 ^ g / 2 ^ f" by (simp add: f)
  have "\<bar>x\<bar> + 1 / 2 = of_int (\<bar>p\<bar> + 2 ^ g) / of_int (2 ^ f)"
    unfolding half x_def by (simp add: add_divide_distrib)
  then have "\<lfloor>\<bar>x\<bar> + 1 / 2\<rfloor> = (\<bar>p\<bar> + 2 ^ g) div 2 ^ f"
    by (simp only: floor_divide_of_int_eq)
  then have m: "\<lfloor>\<bar>x\<bar> + 1 / 2\<rfloor> = M" by (simp add: M_def f)
  have sg: "(0 \<le> x) = (0 \<le> p)"
    unfolding x_def by (simp add: zero_le_divide_iff power_le_zero_eq)
  have lhs: "mult_rescale f p = (if p < 0 then - M else M)"
    using False by (simp add: mult_rescale_def M_def Let_def)
  have rhs: "round_half_away x = (if 0 \<le> x then \<lfloor>\<bar>x\<bar> + 1 / 2\<rfloor> else - \<lfloor>\<bar>x\<bar> + 1 / 2\<rfloor>)"
    by (simp add: round_half_away_def)
  show ?thesis
    unfolding lhs x_def[symmetric] rhs m sg by auto
qed

section \<open>The core multiply and divide against the specification\<close>

text \<open>
  Claim C4.  For all raw operands and a non-null result pointer, the core multiply of
  either width stores the widened product \<open>a * b\<close>, rescaled in the magnitude domain
  (absolute value, plus \<open>1 << (fractionalBits - 1)\<close>, shifted right by
  \<open>fractionalBits\<close>, sign restored) and clamped to the container range; the rescaled
  value is the product divided by \<open>2 ^ fractionalBits\<close> rounded to nearest with ties
  away from zero; and the status is \<open>E_NOT_OK\<close> exactly when clamping changed the value.
\<close>

theorem C4_core_multiply:
  fixes a b :: t_Fixed16 and a' b' :: t_Fixed8
  shows
    "(let v = mult_rescale SHIFT_16 (sint a * sint b);
          s = saturate (sint FIX16_MIN) (sint FIX16_MAX) v
      in FixedPoint_Mult16_Core a b (Ref c) =
           (if s = v then E_OK else E_NOT_OK, Ref (Some (word_of_int s)))
       \<and> sint (word_of_int s :: t_Fixed16) = s
       \<and> v = round_half_away (of_int (sint a * sint b) / 2 ^ SHIFT_16))
   \<and> (let v = mult_rescale SHIFT_8 (sint a' * sint b');
          s = saturate (sint FIX8_MIN) (sint FIX8_MAX) v
      in FixedPoint_Mult8_Core a' b' (Ref c') =
           (if s = v then E_OK else E_NOT_OK, Ref (Some (word_of_int s)))
       \<and> sint (word_of_int s :: t_Fixed8) = s
       \<and> v = round_half_away (of_int (sint a' * sint b') / 2 ^ SHIFT_8))
   \<and> E_OK \<noteq> E_NOT_OK"
  unfolding Let_def
  by (simp add: Mult16_Core_eq Mult8_Core_eq sint_saturate16 sint_saturate8
        mult_rescale_round_half_away FIX16_MIN_def FIX16_MAX_def FIX8_MIN_def FIX8_MAX_def
        E_OK_def E_NOT_OK_def)

text \<open>
  Claim C5.  For all raw operands with \<open>b \<noteq> 0\<close> and a non-null result pointer, the core
  divide of either width shifts the magnitude of \<open>a\<close> left by \<open>fractionalBits\<close>, adds
  half the magnitude of \<open>b\<close>, divides by the magnitude of \<open>b\<close>, negates the quotient
  exactly when \<open>a\<close> and \<open>b\<close> have opposite signs, and clamps to the container range
  with status \<open>E_NOT_OK\<close> exactly when clamping changed the value.  The shifted
  magnitude is computed in a word wide enough that the shift does not overflow.  For
  \<open>b = 0\<close> the division is undefined.
\<close>

theorem C5_core_divide:
  fixes a b :: t_Fixed16 and a' b' :: t_Fixed8
  shows
    "(let v = div_rescale SHIFT_16 (sint a) (sint b);
          s = saturate (sint FIX16_MIN) (sint FIX16_MAX) v
      in FixedPoint_Div16_Core a b (Ref c) =
           (if b = 0 then None
            else Some (if s = v then E_OK else E_NOT_OK, Ref (Some (word_of_int s))))
       \<and> sint (word_of_int s :: t_Fixed16) = s
       \<and> uint (push_bit SHIFT_16
                  (ucast (if a <s 0 then - (scast a :: sint64) else scast a) :: uint64))
           = \<bar>sint a\<bar> * 2 ^ SHIFT_16)
   \<and> (let v = div_rescale SHIFT_8 (sint a') (sint b');
          s = saturate (sint FIX8_MIN) (sint FIX8_MAX) v
      in FixedPoint_Div8_Core a' b' (Ref c') =
           (if b' = 0 then None
            else Some (if s = v then E_OK else E_NOT_OK, Ref (Some (word_of_int s))))
       \<and> sint (word_of_int s :: t_Fixed8) = s
       \<and> uint (push_bit SHIFT_8
                  (ucast (if a' <s 0 then - (scast a' :: sint32) else scast a') :: uint32))
           = \<bar>sint a'\<bar> * 2 ^ SHIFT_8)
   \<and> E_OK \<noteq> E_NOT_OK"
proof -
  have s16: "\<bar>sint a\<bar> \<le> 32768" using sint16_bounds[of a] by auto
  have s8: "\<bar>sint a'\<bar> \<le> 128" using sint8_bounds[of a'] by auto
  have "uint (push_bit 8 (ucast (if a <s 0 then - (scast a :: sint64) else scast a) :: uint64))
      = take_bit LENGTH(64)
          (push_bit 8 (uint (ucast (if a <s 0 then - (scast a :: sint64) else scast a) :: uint64)))"
    by (rule unsigned_push_bit_eq)
  also have "\<dots> = \<bar>sint a\<bar> * 2 ^ 8"
    unfolding mag64 using s16 by (simp add: push_bit_eq_mult take_bit_int_eq_self)
  finally have w16: "uint (push_bit 8 (ucast (if a <s 0 then - (scast a :: sint64) else scast a) :: uint64))
      = \<bar>sint a\<bar> * 2 ^ 8" .
  have "uint (push_bit 4 (ucast (if a' <s 0 then - (scast a' :: sint32) else scast a') :: uint32))
      = take_bit LENGTH(32)
          (push_bit 4 (uint (ucast (if a' <s 0 then - (scast a' :: sint32) else scast a') :: uint32)))"
    by (rule unsigned_push_bit_eq)
  also have "\<dots> = \<bar>sint a'\<bar> * 2 ^ 4"
    unfolding mag32 using s8 by (simp add: push_bit_eq_mult take_bit_int_eq_self)
  finally have w8: "uint (push_bit 4 (ucast (if a' <s 0 then - (scast a' :: sint32) else scast a') :: uint32))
      = \<bar>sint a'\<bar> * 2 ^ 4" .
  have st: "E_OK \<noteq> E_NOT_OK" by (simp add: E_OK_def E_NOT_OK_def)
  have v16: "sint FIX16_MIN = - 32768" "sint FIX16_MAX = 32767"
    by (simp_all add: FIX16_MIN_def FIX16_MAX_def)
  have v8: "sint FIX8_MIN = - 128" "sint FIX8_MAX = 127"
    by (simp_all add: FIX8_MIN_def FIX8_MAX_def)
  show ?thesis
    unfolding Let_def v16 v8 Div16_Core_eq Div8_Core_eq sint_saturate16 sint_saturate8
    using w16 w8 st by (simp only: SHIFT_16_def SHIFT_8_def) simp
qed

section \<open>Floating-point facts\<close>

subsection \<open>Values on the binary32 grid are rounded to themselves\<close>

lemma round_half_even_of_int: "round_half_even (of_int n) = n"
  by (simp add: round_half_even_def)

lemma grid_normalise:
  fixes m :: int and j :: nat
  assumes "0 \<le> m" "m < 2 ^ 24"
  defines "k \<equiv> nat (bitlen (m * 2 ^ j) - 24)"
  shows "\<exists>n. m * 2 ^ j = n * 2 ^ k \<and> 0 \<le> n \<and> n < 2 ^ 24 \<and> (0 < k \<longrightarrow> 2 ^ 23 \<le> n)"
proof (cases "m = 0")
  case True
  then show ?thesis by (simp add: k_def)
next
  case False
  with assms have mpos: "0 < m" by simp
  have L: "bitlen (m * 2 ^ j) = bitlen m + int j" using mpos by simp
  have bm: "bitlen m \<le> 24" using assms by (simp add: bitlen_le_iff_power)
  show ?thesis
  proof (cases "bitlen m + int j \<le> 24")
    case True
    then have k0: "k = 0" by (simp add: k_def L)
    have "0 < m * 2 ^ j" using mpos by simp
    then have "m * 2 ^ j < 2 ^ nat (bitlen (m * 2 ^ j))" using bitlen_bounds[of "m * 2 ^ j"] by simp
    also have "\<dots> \<le> 2 ^ 24" using True L by (intro power_increasing) auto
    finally have "m * 2 ^ j < 2 ^ 24" .
    then show ?thesis using mpos by (intro exI[of _ "m * 2 ^ j"]) (simp add: k0)
  next
    case False
    then have k: "int k = bitlen m + int j - 24" by (simp add: k_def L)
    then have kj: "k \<le> j" using bm by linarith
    define n where "n = m * 2 ^ (j - k)"
    have npos: "0 < n" using mpos by (simp add: n_def)
    have "(2 :: int) ^ (j - k) * 2 ^ k = 2 ^ j" using kj by (simp flip: power_add)
    then have e: "m * 2 ^ j = n * 2 ^ k" by (simp add: n_def mult.assoc)
    have bn: "bitlen n = 24" unfolding n_def using mpos kj k by simp
    from bitlen_bounds[OF npos] have "2 ^ 23 \<le> n" "n < 2 ^ 24" by (simp_all add: bn)
    with e npos show ?thesis by (intro exI[of _ n]) simp
  qed
qed

lemma valof_Float:
  "valof (Float s e f) =
     (if s then - 1 else 1) * (of_int (if e = 0 then uint f else 2 ^ 23 + uint f) * 2 ^ (unat e - 1)) / 2 ^ 149"
  by (simp add: valof_def significand_def)

lemma uint_frac_of_int:
  assumes "0 \<le> n" "n < 2 ^ 23"
  shows "uint (word_of_int n :: 23 word) = n"
  using assms by (simp add: uint_word_of_int take_bit_int_eq_self flip: take_bit_eq_mod)

lemma unat_expo_of_nat:
  assumes "e < 256"
  shows "unat (of_nat e :: 8 word) = e"
  using assms by (simp add: unat_of_nat)

lemma float_round_grid:
  fixes m :: int and j :: nat
  assumes m: "0 \<le> m" "m < 2 ^ 24" and q: "\<bar>q\<bar> = of_int (m * 2 ^ j) / 2 ^ 149"
  shows "float_round z q = float_infinity (q < 0) \<and> 2 ^ 277 \<le> m * 2 ^ j
       \<or> expo (float_round z q) \<noteq> 255 \<and> valof (float_round z q) = q"
proof -
  define k where "k = nat (bitlen (m * 2 ^ j) - 24)"
  from grid_normalise[OF m, of j] obtain n
    where n: "m * 2 ^ j = n * 2 ^ k" "0 \<le> n" "n < 2 ^ 24" "0 < k \<longrightarrow> 2 ^ 23 \<le> n"
    unfolding k_def[symmetric] by blast
  have t: "\<bar>q\<bar> * 2 ^ 149 = of_int (m * 2 ^ j)" by (simp add: q)
  have fl: "\<lfloor>\<bar>q\<bar> * 2 ^ 149\<rfloor> = m * 2 ^ j" unfolding t by (simp only: floor_of_int)
  have "\<bar>q\<bar> * 2 ^ 149 / 2 ^ k = of_int n"
    unfolding t n(1) by simp
  then have rn: "round_half_even (\<bar>q\<bar> * 2 ^ 149 / 2 ^ k) = n"
    by (simp only: round_half_even_of_int)
  define s where "s = (if q = 0 then z else q < 0)"
  define E :: "8 word" where "E = of_nat (k + 1)"
  define F :: "23 word" where "F = word_of_int (n - 2 ^ 23)"
  define G :: "23 word" where "G = word_of_int n"
  have fr: "float_round z q =
     (if n < 2 ^ 23 then Float s 0 G
      else if k + 1 < 255 then Float s E F
      else float_infinity s)"
    unfolding float_round_def Let_def fl k_def[symmetric] rn s_def[symmetric] E_def F_def G_def
    using n(3) by simp
  have absq: "\<bar>q\<bar> = of_int n * 2 ^ k / 2 ^ 149" unfolding q n(1) by simp
  have sq: "(if s then - 1 else 1) * \<bar>q\<bar> = q"
    by (auto simp: s_def)
  show ?thesis
  proof (cases "n < 2 ^ 23")
    case True
    with n(4) have k0: "k = 0" by auto
    have G: "uint G = n" unfolding G_def using True n(2) by (rule uint_frac_of_int[rotated])
    have "valof (Float s 0 G) = (if s then - 1 else 1) * \<bar>q\<bar>"
      unfolding absq by (simp add: valof_Float G k0)
    then show ?thesis using True by (simp add: fr sq)
  next
    case False
    show ?thesis
    proof (cases "k + 1 < 255")
      case k: True
      have "unat E = (k + 1) mod 2 ^ LENGTH(8)"
        unfolding E_def by (rule unat_of_nat)
      also have "\<dots> = k + 1" using k by simp
      finally have ue: "unat E = k + 1" .
      have e0: "E \<noteq> 0"
      proof
        assume "E = 0"
        then have "unat E = 0" by simp
        with ue show False by simp
      qed
      have e255: "E \<noteq> 255"
      proof
        assume "E = 255"
        then have "unat E = 255" by simp
        with ue k show False by simp
      qed
      have F: "uint F = n - 2 ^ 23"
        unfolding F_def using False n(3) by (intro uint_frac_of_int) simp_all
      have "valof (Float s E F) = (if s then - 1 else 1) * \<bar>q\<bar>"
        unfolding absq using e0 by (simp add: valof_Float F ue)
      then show ?thesis using False k e255 by (simp add: fr sq)
    next
      case k: False
      have "q \<noteq> 0" using False absq by auto
      then have "s = (q < 0)" by (simp add: s_def)
      moreover have "(2 :: int) ^ 277 \<le> m * 2 ^ j"
      proof -
        have "(2 :: int) ^ 23 * 2 ^ 254 \<le> n * 2 ^ k"
          using False k n(2) by (intro mult_mono power_increasing) simp_all
        then show ?thesis unfolding n(1) by simp
      qed
      ultimately show ?thesis using False k by (simp add: fr)
    qed
  qed
qed

lemma float_round_exact:
  fixes m :: int and j :: nat
  assumes "0 \<le> m" "m < 2 ^ 24" "\<bar>q\<bar> = of_int (m * 2 ^ j) / 2 ^ 149" "m * 2 ^ j < 2 ^ 277"
  shows "expo (float_round z q) \<noteq> 255" "valof (float_round z q) = q"
  using float_round_grid[OF assms(1-3), of z] assms(4) by auto

lemma dyadic_rescale:
  fixes m :: int and d N :: nat
  assumes "d \<le> N"
  shows "(of_int m :: rat) / 2 ^ d = of_int (m * 2 ^ (N - d)) / 2 ^ N"
proof -
  have "(2 :: rat) ^ N = 2 ^ (N - d) * 2 ^ d"
    using assms by (simp flip: power_add)
  then show ?thesis by simp
qed

lemma float_round_dyadic:
  fixes m :: int and d :: nat
  assumes "0 \<le> m" "m < 2 ^ 24" "d \<le> 149" "\<bar>q\<bar> = of_int m / 2 ^ d"
  shows "expo (float_round z q) \<noteq> 255" "valof (float_round z q) = q"
proof -
  have q: "\<bar>q\<bar> = of_int (m * 2 ^ (149 - d)) / 2 ^ 149"
    unfolding assms(4) using assms(3) by (rule dyadic_rescale)
  have "(2 :: int) ^ (149 - d) \<le> 2 ^ 149"
    by (rule power_increasing) simp_all
  with assms(1,2) have "m * 2 ^ (149 - d) < 2 ^ 24 * 2 ^ 149"
    by (intro mult_less_le_imp_less) simp_all
  then have b: "m * 2 ^ (149 - d) < 2 ^ 277" by simp
  from float_round_exact[OF assms(1,2) q b]
  show "expo (float_round z q) \<noteq> 255" "valof (float_round z q) = q" by blast+
qed

lemma is_finite_simps:
  "is_finite x \<Longrightarrow> \<not> is_nan x"
  "is_finite x \<Longrightarrow> \<not> is_inf x"
  by (simp_all add: is_finite_def is_nan_def is_inf_def)

lemma fmul_finite:
  "is_finite x \<Longrightarrow> is_finite y \<Longrightarrow> fmul x y = float_round (sign x \<noteq> sign y) (valof x * valof y)"
  by (simp add: fmul_def is_finite_simps)

lemma fadd_finite:
  "is_finite x \<Longrightarrow> is_finite y \<Longrightarrow> fadd x y = float_round (sign x \<and> sign y) (valof x + valof y)"
  by (simp add: fadd_def is_finite_simps)

lemma valof_fneg: "valof (fneg x) = - valof x"
  by (simp add: fneg_def valof_def significand_def)

lemma is_finite_fneg: "is_finite (fneg x) = is_finite x"
  by (simp add: fneg_def is_finite_def)

lemma fsub_finite:
  "is_finite x \<Longrightarrow> is_finite y \<Longrightarrow> fsub x y = float_round (sign x \<and> \<not> sign y) (valof x - valof y)"
  by (simp add: fsub_def fadd_finite is_finite_fneg valof_fneg) (simp add: fneg_def)

lemma fdiv_finite:
  "is_finite x \<Longrightarrow> is_finite y \<Longrightarrow> valof y \<noteq> 0 \<Longrightarrow>
   fdiv x y = float_round (sign x \<noteq> sign y) (valof x / valof y)"
  by (simp add: fdiv_def is_finite_simps)

lemma fge_finite:
  "is_finite x \<Longrightarrow> is_finite y \<Longrightarrow> fge x y = (valof y \<le> valof x)"
  by (simp add: fge_def is_finite_simps)

lemma float_zero: "is_finite (float_of_rat 0)" "valof (float_of_rat 0) = 0"
  using float_round_dyadic[of 0 0 0 False] by (simp_all add: float_of_rat_def is_finite_def)

lemma float_half: "is_finite (float_of_rat (1 / 2))" "valof (float_of_rat (1 / 2)) = 1 / 2"
  using float_round_dyadic[of 1 1 "1 / 2" False] by (simp_all add: float_of_rat_def is_finite_def)

lemma float_scale16: "is_finite (float_of_nat SCALE_16)" "valof (float_of_nat SCALE_16) = 256"
  using float_round_dyadic[of 256 0 256 False]
  by (simp_all add: float_of_nat_def is_finite_def SCALE_16_def SHIFT_16_def)

lemma float_scale8: "is_finite (float_of_nat SCALE_8)" "valof (float_of_nat SCALE_8) = 16"
  using float_round_dyadic[of 16 0 16 False]
  by (simp_all add: float_of_nat_def is_finite_def SCALE_8_def SHIFT_8_def)

lemma float_of_sint16:
  fixes v :: "16 word"
  shows "is_finite (float_of_sint v)" "valof (float_of_sint v) = of_int (sint v)"
proof -
  have "\<bar>sint v\<bar> < 2 ^ 24" using sint16_bounds[of v] by auto
  from float_round_dyadic[of "\<bar>sint v\<bar>" 0 "of_int (sint v)" False, OF _ this]
  show "is_finite (float_of_sint v)" "valof (float_of_sint v) = of_int (sint v)"
    by (simp_all add: float_of_sint_def is_finite_def)
qed

lemma float_of_sint8:
  fixes v :: "8 word"
  shows "is_finite (float_of_sint v)" "valof (float_of_sint v) = of_int (sint v)"
proof -
  have "\<bar>sint v\<bar> < 2 ^ 24" using sint8_bounds[of v] by auto
  from float_round_dyadic[of "\<bar>sint v\<bar>" 0 "of_int (sint v)" False, OF _ this]
  show "is_finite (float_of_sint v)" "valof (float_of_sint v) = of_int (sint v)"
    by (simp_all add: float_of_sint_def is_finite_def)
qed

lemma Fix16ToFloat_exact:
  "is_finite (FixedPoint_Fix16ToFloat v)" "valof (FixedPoint_Fix16ToFloat v) = of_int (sint v) / 256"
proof -
  have b: "\<bar>sint v\<bar> < 2 ^ 24" using sint16_bounds[of v] by auto
  have eq: "FixedPoint_Fix16ToFloat v =
      float_round (sign (float_of_sint v) \<noteq> sign (float_of_nat SCALE_16)) (of_int (sint v) / 256)"
    by (simp add: FixedPoint_Fix16ToFloat_def fdiv_finite float_of_sint16 float_scale16)
  from float_round_dyadic[of "\<bar>sint v\<bar>" 8 "of_int (sint v) / 256", OF _ b]
  show "is_finite (FixedPoint_Fix16ToFloat v)" "valof (FixedPoint_Fix16ToFloat v) = of_int (sint v) / 256"
    unfolding eq by (simp_all add: is_finite_def)
qed

lemma Fix8ToFloat_exact:
  "is_finite (FixedPoint_Fix8ToFloat v)" "valof (FixedPoint_Fix8ToFloat v) = of_int (sint v) / 16"
proof -
  have b: "\<bar>sint v\<bar> < 2 ^ 24" using sint8_bounds[of v] by auto
  have eq: "FixedPoint_Fix8ToFloat v =
      float_round (sign (float_of_sint v) \<noteq> sign (float_of_nat SCALE_8)) (of_int (sint v) / 16)"
    by (simp add: FixedPoint_Fix8ToFloat_def fdiv_finite float_of_sint8 float_scale8)
  from float_round_dyadic[of "\<bar>sint v\<bar>" 4 "of_int (sint v) / 16", OF _ b]
  show "is_finite (FixedPoint_Fix8ToFloat v)" "valof (FixedPoint_Fix8ToFloat v) = of_int (sint v) / 16"
    unfolding eq by (simp_all add: is_finite_def)
qed

subsection \<open>The conversion helpers\<close>

lemma FloatToFix16_eq:
  "FixedPoint_FloatToFix16 val (Ref c) =
     (case FloatToFix16_scaled_i val of
        None \<Rightarrow> None
      | Some i \<Rightarrow>
          Some (if saturate (- 32768) 32767 (sint i) = sint i then E_OK else E_NOT_OK,
                Ref (Some (word_of_int (saturate (- 32768) 32767 (sint i))))))"
proof (cases "FloatToFix16_scaled_i val")
  case None
  then show ?thesis
    unfolding FixedPoint_FloatToFix16_def FloatToFix16_scaled_i_def Let_def by simp
next
  case (Some i)
  then have "FixedPoint_FloatToFix16 val (Ref c) =
     Some (if 32767 <s i then (E_NOT_OK, Ref (Some 32767))
      else if i <s - 32768 then (E_NOT_OK, Ref (Some (- 32768)))
      else (E_OK, Ref (Some (scast i))))"
    unfolding FixedPoint_FloatToFix16_def FloatToFix16_scaled_i_def Let_def
    by (simp add: FIX16_MAX_def FIX16_MIN_def)
  then show ?thesis unfolding saturate_store16_32 Some by simp
qed

lemma FloatToFix8_eq:
  "FixedPoint_FloatToFix8 val (Ref c) =
     (case FloatToFix8_scaled_i val of
        None \<Rightarrow> None
      | Some i \<Rightarrow>
          Some (if saturate (- 128) 127 (sint i) = sint i then E_OK else E_NOT_OK,
                Ref (Some (word_of_int (saturate (- 128) 127 (sint i))))))"
proof (cases "FloatToFix8_scaled_i val")
  case None
  then show ?thesis
    unfolding FixedPoint_FloatToFix8_def FloatToFix8_scaled_i_def Let_def by simp
next
  case (Some i)
  then have "FixedPoint_FloatToFix8 val (Ref c) =
     Some (if 127 <s i then (E_NOT_OK, Ref (Some 127))
      else if i <s - 128 then (E_NOT_OK, Ref (Some (- 128)))
      else (E_OK, Ref (Some (scast i))))"
    unfolding FixedPoint_FloatToFix8_def FloatToFix8_scaled_i_def Let_def
    by (simp add: FIX8_MAX_def FIX8_MIN_def)
  then show ?thesis unfolding saturate_store8_16 Some by simp
qed

lemma saturate_id_iff: "lo \<le> hi \<Longrightarrow> (saturate lo hi v = v) = (\<not> out_of_range lo hi v)"
  by (auto simp: saturate_def out_of_range_def)

lemma truncate_plus_half:
  "0 \<le> n \<Longrightarrow> truncate (of_int n + 1 / 2) = n"
  "n < 0 \<Longrightarrow> truncate (of_int n - 1 / 2) = n"
proof -
  assume "0 \<le> n"
  then have "(0 :: rat) \<le> of_int n + 1 / 2" by simp
  moreover have "\<lfloor>(of_int n :: rat) + 1 / 2\<rfloor> = n" by (rule floor_unique) simp_all
  ultimately show "truncate (of_int n + 1 / 2) = n" by (simp add: truncate_def)
next
  assume "n < 0"
  then have "\<not> (0 :: rat) \<le> of_int n - 1 / 2" by simp
  moreover have "\<lceil>(of_int n :: rat) - 1 / 2\<rceil> = n" by (rule ceiling_unique) simp_all
  ultimately show "truncate (of_int n - 1 / 2) = n" by (simp add: truncate_def)
qed

text \<open>
  A scaled value that is an integer \<open>n\<close> of moderate size: adding or subtracting one
  half is exact, and the conversion to the integer temporary gives back \<open>n\<close>.
\<close>

lemma round_integer_scaled:
  fixes n :: int
  assumes s: "is_finite s" "valof s = of_int n" and n: "- 32768 \<le> n" "n \<le> 32767"
    and len: "16 \<le> LENGTH('a)"
  shows "(if fge s (float_of_rat 0)
          then float_to_sint (fadd s (float_of_rat (1 / 2)))
          else float_to_sint (fsub s (float_of_rat (1 / 2)))) = Some (word_of_int n :: 'a::len word)"
proof -
  have b15: "(2 :: int) ^ 15 \<le> 2 ^ (LENGTH('a) - 1)"
    using len by (intro power_increasing) simp_all
  show ?thesis
  proof (cases "0 \<le> n")
    case True
    define r where "r = fadd s (float_of_rat (1 / 2))"
    have r: "r = float_round (sign s \<and> sign (float_of_rat (1 / 2))) (of_int n + 1 / 2)"
      unfolding r_def by (simp add: fadd_finite s float_half)
    have q: "\<bar>(of_int n :: rat) + 1 / 2\<bar> = of_int (2 * n + 1) / 2 ^ 1"
      using True by (simp add: add_divide_distrib)
    from n True have "0 \<le> 2 * n + 1" "2 * n + 1 < 2 ^ 24" by simp_all
    from float_round_dyadic[OF this _ q]
    have rf: "is_finite r" "valof r = of_int n + 1 / 2"
      unfolding r by (simp_all add: is_finite_def)
    have "float_to_sint r = Some (word_of_int n :: 'a word)"
      unfolding float_to_sint_def rf(2) truncate_plus_half(1)[OF True]
      using rf(1) n True b15 by simp
    then show ?thesis using True by (simp add: fge_finite s float_zero r_def)
  next
    case False
    define r where "r = fsub s (float_of_rat (1 / 2))"
    have r: "r = float_round (sign s \<and> \<not> sign (float_of_rat (1 / 2))) (of_int n - 1 / 2)"
      unfolding r_def by (simp add: fsub_finite s float_half)
    have q: "\<bar>(of_int n :: rat) - 1 / 2\<bar> = of_int (2 * (- n) + 1) / 2 ^ 1"
      using False by (simp add: add_divide_distrib abs_if)
    from n False have "0 \<le> 2 * (- n) + 1" "2 * (- n) + 1 < 2 ^ 24" by simp_all
    from float_round_dyadic[OF this _ q]
    have rf: "is_finite r" "valof r = of_int n - 1 / 2"
      unfolding r by (simp_all add: is_finite_def)
    from False have neg: "n < 0" by simp
    have "float_to_sint r = Some (word_of_int n :: 'a word)"
      unfolding float_to_sint_def rf(2) truncate_plus_half(2)[OF neg]
      using rf(1) n neg b15 by simp
    then show ?thesis using False by (simp add: fge_finite s float_zero r_def)
  qed
qed

lemma scaled_i16_of_fixed:
  "FloatToFix16_scaled_i (FixedPoint_Fix16ToFloat v) = Some (word_of_int (sint v))"
proof -
  define s where "s = fmul (FixedPoint_Fix16ToFloat v) (float_of_nat SCALE_16)"
  have b: "- 32768 \<le> sint v" "sint v \<le> 32767" using sint16_bounds[of v] by auto
  then have b24: "0 \<le> \<bar>sint v\<bar>" "\<bar>sint v\<bar> < 2 ^ 24" by auto
  have "s = float_round (sign (FixedPoint_Fix16ToFloat v) \<noteq> sign (float_of_nat SCALE_16))
              (of_int (sint v))"
    unfolding s_def by (simp add: fmul_finite Fix16ToFloat_exact float_scale16)
  with float_round_dyadic[OF b24, of 0 "of_int (sint v)"]
  have s: "is_finite s" "valof s = of_int (sint v)"
    by (simp_all add: is_finite_def)
  show ?thesis
    unfolding FloatToFix16_scaled_i_def Let_def s_def[symmetric]
    by (rule round_integer_scaled[OF s b]) simp
qed

lemma scaled_i8_of_fixed:
  "FloatToFix8_scaled_i (FixedPoint_Fix8ToFloat v) = Some (word_of_int (sint v))"
proof -
  define s where "s = fmul (FixedPoint_Fix8ToFloat v) (float_of_nat SCALE_8)"
  have b: "- 32768 \<le> sint v" "sint v \<le> 32767" using sint8_bounds[of v] by auto
  then have b24: "0 \<le> \<bar>sint v\<bar>" "\<bar>sint v\<bar> < 2 ^ 24" by auto
  have "s = float_round (sign (FixedPoint_Fix8ToFloat v) \<noteq> sign (float_of_nat SCALE_8))
              (of_int (sint v))"
    unfolding s_def by (simp add: fmul_finite Fix8ToFloat_exact float_scale8)
  with float_round_dyadic[OF b24, of 0 "of_int (sint v)"]
  have s: "is_finite s" "valof s = of_int (sint v)"
    by (simp_all add: is_finite_def)
  show ?thesis
    unfolding FloatToFix8_scaled_i_def Let_def s_def[symmetric]
    by (rule round_integer_scaled[OF s b]) simp
qed

text \<open>
  Claim C9.  Converting a raw fixed-point value to float and back stores exactly that raw
  value and returns \<open>E_OK\<close>, for every 16-bit raw value with the 16-bit helpers and for
  every 8-bit raw value with the 8-bit helpers.
\<close>

theorem C9_fixed_float_round_trip:
  fixes v :: t_Fixed16 and v' :: t_Fixed8
  shows "FixedPoint_FloatToFix16 (FixedPoint_Fix16ToFloat v) (Ref c) = Some (E_OK, Ref (Some v))
       \<and> FixedPoint_FloatToFix8 (FixedPoint_Fix8ToFloat v') (Ref c') = Some (E_OK, Ref (Some v'))"
proof
  have b: "- 32768 \<le> sint v" "sint v \<le> 32767" using sint16_bounds[of v] by auto
  then have i: "sint (word_of_int (sint v) :: sint32) = sint v"
    by (simp add: sint_up_scast_eq)
  show "FixedPoint_FloatToFix16 (FixedPoint_Fix16ToFloat v) (Ref c) = Some (E_OK, Ref (Some v))"
    unfolding FloatToFix16_eq scaled_i16_of_fixed using b by (simp add: sint_up_scast_eq saturate_def)
next
  have b: "- 128 \<le> sint v'" "sint v' \<le> 127" using sint8_bounds[of v'] by auto
  then have i: "sint (word_of_int (sint v') :: sint16) = sint v'"
    by (simp add: sint_up_scast_eq)
  show "FixedPoint_FloatToFix8 (FixedPoint_Fix8ToFloat v') (Ref c') = Some (E_OK, Ref (Some v'))"
    unfolding FloatToFix8_eq scaled_i8_of_fixed using b by (simp add: sint_up_scast_eq saturate_def)
qed

section \<open>The public operations\<close>

lemma E_OK_neq_E_NOT_OK: "E_OK \<noteq> E_NOT_OK"
  by (simp add: E_OK_def E_NOT_OK_def)

lemma out_of_range_saturate16: "\<not> out_of_range (- 32768) 32767 (saturate (- 32768) 32767 v)"
  by (simp add: out_of_range_def saturate_def)

lemma out_of_range_saturate8: "\<not> out_of_range (- 128) 127 (saturate (- 128) 127 v)"
  by (simp add: out_of_range_def saturate_def)

lemma Add16_eq:
  "FixedPoint_Add16 x y (Ref c) =
     public_op_spec (- 32768) 32767 (+) FixedPoint_Fix16ToFloat
       (FloatToFix16_scaled_i x) (FloatToFix16_scaled_i y)"
  unfolding FixedPoint_Add16_def public_op_spec_def FloatToFix16_eq Add16_Core_eq
  by (simp add: Let_def sint_saturate16 saturate_id_iff E_OK_neq_E_NOT_OK
        split: option.splits)


lemma Mult16_eq:
  "FixedPoint_Mult16 x y (Ref c) =
     public_op_spec (- 32768) 32767 (\<lambda>a b. mult_rescale SHIFT_16 (a * b)) FixedPoint_Fix16ToFloat
       (FloatToFix16_scaled_i x) (FloatToFix16_scaled_i y)"
  unfolding FixedPoint_Mult16_def public_op_spec_def FloatToFix16_eq Mult16_Core_eq
  by (simp add: Let_def sint_saturate16 saturate_id_iff E_OK_neq_E_NOT_OK
        split: option.splits)

lemma Add8_eq:
  "FixedPoint_Add8 x y (Ref c) =
     public_op_spec (- 128) 127 (+) FixedPoint_Fix8ToFloat
       (FloatToFix8_scaled_i x) (FloatToFix8_scaled_i y)"
  unfolding FixedPoint_Add8_def public_op_spec_def FloatToFix8_eq Add8_Core_eq
  by (simp add: Let_def sint_saturate8 saturate_id_iff E_OK_neq_E_NOT_OK
        split: option.splits)


lemma Mult8_eq:
  "FixedPoint_Mult8 x y (Ref c) =
     public_op_spec (- 128) 127 (\<lambda>a b. mult_rescale SHIFT_8 (a * b)) FixedPoint_Fix8ToFloat
       (FloatToFix8_scaled_i x) (FloatToFix8_scaled_i y)"
  unfolding FixedPoint_Mult8_def public_op_spec_def FloatToFix8_eq Mult8_Core_eq
  by (simp add: Let_def sint_saturate8 saturate_id_iff E_OK_neq_E_NOT_OK
        split: option.splits)

lemma public_op_spec_commute:
  assumes "\<And>a b. f a b = f b a"
  shows "public_op_spec lo hi f to_float ci cj = public_op_spec lo hi f to_float cj ci"
proof (cases ci)
  case None
  then show ?thesis by (simp add: public_op_spec_def split: option.splits)
next
  case i: (Some i)
  show ?thesis
  proof (cases cj)
    case None
    then show ?thesis by (simp add: public_op_spec_def split: option.splits)
  next
    case j: (Some j)
    have "f (saturate lo hi (sint i)) (saturate lo hi (sint j))
        = f (saturate lo hi (sint j)) (saturate lo hi (sint i))"
      by (rule assms)
    then show ?thesis
      unfolding public_op_spec_def Let_def i j by auto
  qed
qed

text \<open>
  Claim C10.  The public Add and Mult operations of both widths are commutative: with the
  operands exchanged they return the same status and leave the same value in the slot.
\<close>

theorem C10_add_mult_commute:
  "FixedPoint_Add16 x y r = FixedPoint_Add16 y x r
   \<and> FixedPoint_Add8 x y r = FixedPoint_Add8 y x r
   \<and> FixedPoint_Mult16 x y r = FixedPoint_Mult16 y x r
   \<and> FixedPoint_Mult8 x y r = FixedPoint_Mult8 y x r"
proof (cases r)
  case NULL
  then show ?thesis
    by (simp add: FixedPoint_Add16_def FixedPoint_Add8_def FixedPoint_Mult16_def
          FixedPoint_Mult8_def)
next
  case (Ref c)
  have a: "public_op_spec lo hi (+) to_float ci cj = public_op_spec lo hi (+) to_float cj ci"
    for lo hi and to_float :: "'a::len word \<Rightarrow> float" and ci cj :: "'b::len word option"
    by (rule public_op_spec_commute) (rule add.commute)
  have m: "public_op_spec lo hi (\<lambda>a b. mult_rescale f (a * b)) to_float ci cj
         = public_op_spec lo hi (\<lambda>a b. mult_rescale f (a * b)) to_float cj ci"
    for lo hi f and to_float :: "'a::len word \<Rightarrow> float" and ci cj :: "'b::len word option"
    by (rule public_op_spec_commute) (simp add: mult.commute)
  show ?thesis
    unfolding Ref Add16_eq Add8_eq Mult16_eq Mult8_eq
    by (intro conjI a m)
qed

text \<open>
  Claim C1.  Every raw fixed-point value stored by a float-to-fixed helper or by a core
  operation is the clamped value of the widened temporary: it lies between the container
  bounds, and narrowing it to the container does not change it.  This holds for every
  float and every pair of raw operands, hence for every value the eight public operations
  produce on the way.  Where the conversion of the float to the integer temporary or the
  division is undefined, no value is stored.
\<close>

theorem C1_raw_values_in_range:
  fixes a b :: t_Fixed16 and a' b' :: t_Fixed8
  shows
   "(sint FIX16_MIN \<le> saturate (sint FIX16_MIN) (sint FIX16_MAX) v
     \<and> saturate (sint FIX16_MIN) (sint FIX16_MAX) v \<le> sint FIX16_MAX
     \<and> sint (word_of_int (saturate (sint FIX16_MIN) (sint FIX16_MAX) v) :: t_Fixed16)
         = saturate (sint FIX16_MIN) (sint FIX16_MAX) v)
  \<and> (sint FIX8_MIN \<le> saturate (sint FIX8_MIN) (sint FIX8_MAX) v
     \<and> saturate (sint FIX8_MIN) (sint FIX8_MAX) v \<le> sint FIX8_MAX
     \<and> sint (word_of_int (saturate (sint FIX8_MIN) (sint FIX8_MAX) v) :: t_Fixed8)
         = saturate (sint FIX8_MIN) (sint FIX8_MAX) v)
  \<and> map_option stored_raw (FixedPoint_FloatToFix16 val (Ref c)) =
       map_option (\<lambda>i. Some (saturate (sint FIX16_MIN) (sint FIX16_MAX) (sint i)))
         (FloatToFix16_scaled_i val)
  \<and> map_option stored_raw (FixedPoint_FloatToFix8 val (Ref c')) =
       map_option (\<lambda>i. Some (saturate (sint FIX8_MIN) (sint FIX8_MAX) (sint i)))
         (FloatToFix8_scaled_i val)
  \<and> stored_raw (FixedPoint_Add16_Core a b (Ref c)) =
       Some (saturate (sint FIX16_MIN) (sint FIX16_MAX) (sint a + sint b))
  \<and> stored_raw (FixedPoint_Sub16_Core a b (Ref c)) =
       Some (saturate (sint FIX16_MIN) (sint FIX16_MAX) (sint a - sint b))
  \<and> stored_raw (FixedPoint_Mult16_Core a b (Ref c)) =
       Some (saturate (sint FIX16_MIN) (sint FIX16_MAX) (mult_rescale SHIFT_16 (sint a * sint b)))
  \<and> map_option stored_raw (FixedPoint_Div16_Core a b (Ref c)) =
       (if b = 0 then None
        else Some (Some (saturate (sint FIX16_MIN) (sint FIX16_MAX)
                     (div_rescale SHIFT_16 (sint a) (sint b)))))
  \<and> stored_raw (FixedPoint_Add8_Core a' b' (Ref c')) =
       Some (saturate (sint FIX8_MIN) (sint FIX8_MAX) (sint a' + sint b'))
  \<and> stored_raw (FixedPoint_Sub8_Core a' b' (Ref c')) =
       Some (saturate (sint FIX8_MIN) (sint FIX8_MAX) (sint a' - sint b'))
  \<and> stored_raw (FixedPoint_Mult8_Core a' b' (Ref c')) =
       Some (saturate (sint FIX8_MIN) (sint FIX8_MAX) (mult_rescale SHIFT_8 (sint a' * sint b')))
  \<and> map_option stored_raw (FixedPoint_Div8_Core a' b' (Ref c')) =
       (if b' = 0 then None
        else Some (Some (saturate (sint FIX8_MIN) (sint FIX8_MAX)
                     (div_rescale SHIFT_8 (sint a') (sint b')))))"
proof -
  have v: "sint FIX16_MIN = - 32768" "sint FIX16_MAX = 32767" "sint FIX8_MIN = - 128"
    "sint FIX8_MAX = 127"
    by (simp_all add: FIX16_MIN_def FIX16_MAX_def FIX8_MIN_def FIX8_MAX_def)
  have r16: "- 32768 \<le> saturate (- 32768) 32767 v" "saturate (- 32768) 32767 v \<le> 32767"
    using saturate_range[of "- 32768" 32767 v] by simp_all
  have r8: "- 128 \<le> saturate (- 128) 127 v" "saturate (- 128) 127 v \<le> 127"
    using saturate_range[of "- 128" 127 v] by simp_all
  have f16: "map_option stored_raw (FixedPoint_FloatToFix16 val (Ref c)) =
       map_option (\<lambda>i. Some (saturate (- 32768) 32767 (sint i))) (FloatToFix16_scaled_i val)"
    unfolding FloatToFix16_eq stored_raw_def
    by (simp add: sint_saturate16 split: option.splits)
  have f8: "map_option stored_raw (FixedPoint_FloatToFix8 val (Ref c')) =
       map_option (\<lambda>i. Some (saturate (- 128) 127 (sint i))) (FloatToFix8_scaled_i val)"
    unfolding FloatToFix8_eq stored_raw_def
    by (simp add: sint_saturate8 split: option.splits)
  show ?thesis
    unfolding v
    by (intro conjI r16 r8 sint_saturate16 sint_saturate8 f16 f8)
      (simp_all add: stored_raw_def Add16_Core_eq Sub16_Core_eq Mult16_Core_eq Div16_Core_eq
        Add8_Core_eq Sub8_Core_eq Mult8_Core_eq Div8_Core_eq sint_saturate16 sint_saturate8)
qed

subsection \<open>Scaled values with few significant bits are rounded exactly\<close>

lemma half_as_dyadic:
  assumes "1 \<le> e"
  shows "(1 :: rat) / 2 = of_int (2 ^ (e - 1)) / 2 ^ e"
proof -
  from assms obtain g where e: "e = Suc g" by (cases e) auto
  show ?thesis by (simp add: e)
qed

lemma round_int_dyadic:
  fixes p :: int and e :: nat
  assumes s: "is_finite s" "valof s = of_int p / 2 ^ e"
    and e: "1 \<le> e" "e \<le> 149"
    and p: "\<bar>p\<bar> + 2 ^ (e - 1) < 2 ^ 24"
    and lo: "- (2 ^ (LENGTH('a) - 1)) \<le> round_half_away (of_int p / 2 ^ e)"
    and hi: "round_half_away (of_int p / 2 ^ e) < 2 ^ (LENGTH('a) - 1)"
  shows "(if fge s (float_of_rat 0)
          then float_to_sint (fadd s (float_of_rat (1 / 2)))
          else float_to_sint (fsub s (float_of_rat (1 / 2))))
         = Some (word_of_int (round_half_away (of_int p / 2 ^ e)) :: 'a::len word)"
proof -
  define x :: rat where "x = of_int p / 2 ^ e"
  have pos: "(0 :: rat) < 2 ^ e" by simp
  have sgn: "(0 \<le> x) = (0 \<le> p)"
    unfolding x_def by (simp add: zero_le_divide_iff power_le_zero_eq)
  show ?thesis
  proof (cases "0 \<le> p")
    case True
    define r where "r = fadd s (float_of_rat (1 / 2))"
    have r: "r = float_round (sign s \<and> sign (float_of_rat (1 / 2))) (x + 1 / 2)"
      unfolding r_def x_def by (simp add: fadd_finite s float_half)
    have eq: "x + 1 / 2 = of_int (p + 2 ^ (e - 1)) / 2 ^ e"
      unfolding x_def half_as_dyadic[OF e(1)] by (simp add: add_divide_distrib)
    have "0 \<le> x + 1 / 2" using True sgn by simp
    then have "\<bar>x + 1 / 2\<bar> = x + 1 / 2" by (rule abs_of_nonneg)
    then have q: "\<bar>x + 1 / 2\<bar> = of_int (p + 2 ^ (e - 1)) / 2 ^ e" by (simp only: eq)
    have "(0 :: int) \<le> 2 ^ (e - 1)" by simp
    with p True have "0 \<le> p + 2 ^ (e - 1)" "p + 2 ^ (e - 1) < 2 ^ 24" by linarith+
    from float_round_dyadic[OF this e(2) q]
    have rf: "is_finite r" "valof r = x + 1 / 2"
      unfolding r by (simp_all add: is_finite_def)
    have t: "truncate (x + 1 / 2) = round_half_away x"
      using True sgn by (simp add: truncate_def round_half_away_def)
    have "float_to_sint r = Some (word_of_int (round_half_away x) :: 'a word)"
      unfolding float_to_sint_def rf(2) t using rf(1) lo hi by (simp add: x_def)
    then show ?thesis
      using True sgn by (simp add: fge_finite s float_zero r_def x_def)
  next
    case False
    define r where "r = fsub s (float_of_rat (1 / 2))"
    have r: "r = float_round (sign s \<and> \<not> sign (float_of_rat (1 / 2))) (x - 1 / 2)"
      unfolding r_def x_def by (simp add: fsub_finite s float_half)
    have eq: "- (x - 1 / 2) = of_int (- p + 2 ^ (e - 1)) / 2 ^ e"
      unfolding x_def half_as_dyadic[OF e(1)] by (simp add: add_divide_distrib diff_divide_distrib)
    have xneg: "x < 0" using False sgn by simp
    then have "x - 1 / 2 < 0" by simp
    then have "\<bar>x - 1 / 2\<bar> = - (x - 1 / 2)" by (rule abs_of_neg)
    then have q: "\<bar>x - 1 / 2\<bar> = of_int (- p + 2 ^ (e - 1)) / 2 ^ e" by (simp only: eq)
    have "(0 :: int) \<le> 2 ^ (e - 1)" by simp
    with p False have "0 \<le> - p + 2 ^ (e - 1)" "- p + 2 ^ (e - 1) < 2 ^ 24" by linarith+
    from float_round_dyadic[OF this e(2) q]
    have rf: "is_finite r" "valof r = x - 1 / 2"
      unfolding r by (simp_all add: is_finite_def)
    have "\<lceil>x - 1 / 2\<rceil> = - \<lfloor>- x + 1 / 2\<rfloor>" by (simp add: ceiling_def)
    then have t: "truncate (x - 1 / 2) = round_half_away x"
      using xneg by (simp add: truncate_def round_half_away_def)
    have "float_to_sint r = Some (word_of_int (round_half_away x) :: 'a word)"
      unfolding float_to_sint_def rf(2) t using rf(1) lo hi by (simp add: x_def)
    then show ?thesis
      using False sgn by (simp add: fge_finite s float_zero r_def x_def)
  qed
qed

lemma round_half_away_abs_le:
  assumes "\<bar>x\<bar> \<le> of_int N"
  shows "\<bar>round_half_away x\<bar> \<le> N"
proof (cases "0 \<le> x")
  case True
  then have "0 \<le> \<lfloor>x + 1 / 2\<rfloor>" by simp
  moreover have "\<lfloor>x + 1 / 2\<rfloor> \<le> \<lfloor>(of_int N :: rat) + 1 / 2\<rfloor>"
    using assms True by (intro floor_mono) simp
  ultimately show ?thesis using True by (simp add: round_half_away_def floor_int_plus_half)
next
  case False
  then have "0 \<le> \<lfloor>- x + 1 / 2\<rfloor>" by simp
  moreover have "\<lfloor>- x + 1 / 2\<rfloor> \<le> \<lfloor>(of_int N :: rat) + 1 / 2\<rfloor>"
    using assms False by (intro floor_mono) simp
  ultimately show ?thesis using False by (simp add: round_half_away_def floor_int_plus_half)
qed

lemma abs_dyadic_le:
  fixes p :: int
  shows "\<bar>(of_int p :: rat) / 2 ^ e\<bar> \<le> of_int \<bar>p\<bar>"
proof -
  have "(of_int \<bar>p\<bar> :: rat) / 2 ^ e \<le> of_int \<bar>p\<bar> / 1"
    by (intro divide_left_mono) simp_all
  then show ?thesis by simp
qed

lemma scaled_i16_dyadic:
  fixes p :: int and e :: nat
  assumes val: "is_finite val" "valof val * 256 = of_int p / 2 ^ e"
    and e: "1 \<le> e" "e \<le> 149"
    and p: "\<bar>p\<bar> + 2 ^ (e - 1) < 2 ^ 24"
  shows "FloatToFix16_scaled_i val = Some (word_of_int (round_half_away (valof val * 256)))"
proof -
  define s where "s = fmul val (float_of_nat SCALE_16)"
  have "(0 :: int) \<le> 2 ^ (e - 1)" by simp
  with p have ap: "\<bar>p\<bar> < 2 ^ 24" by linarith
  have "s = float_round (sign val \<noteq> sign (float_of_nat SCALE_16)) (of_int p / 2 ^ e)"
    unfolding s_def by (simp add: fmul_finite val float_scale16)
  moreover have "\<bar>(of_int p :: rat) / 2 ^ e\<bar> = of_int \<bar>p\<bar> / 2 ^ e" by simp
  ultimately have s: "is_finite s" "valof s = of_int p / 2 ^ e"
    using float_round_dyadic[OF _ ap e(2), of "of_int p / 2 ^ e"]
    by (simp_all add: is_finite_def)
  define R where "R = round_half_away (of_int p / 2 ^ e)"
  have "\<bar>R\<bar> \<le> \<bar>p\<bar>"
    unfolding R_def by (rule round_half_away_abs_le) (rule abs_dyadic_le)
  with ap have R: "- (2 ^ 31) \<le> R" "R < 2 ^ 31" by simp_all
  show ?thesis
    unfolding FloatToFix16_scaled_i_def Let_def s_def[symmetric] val(2)
    by (rule round_int_dyadic[OF s e p]) (use R in \<open>simp_all add: R_def\<close>)
qed

lemma scaled_i8_dyadic:
  fixes p :: int and e :: nat
  assumes val: "is_finite val" "valof val * 16 = of_int p / 2 ^ e"
    and e: "1 \<le> e" "e \<le> 149"
    and p: "\<bar>p\<bar> + 2 ^ (e - 1) < 2 ^ 24"
    and r: "\<bar>round_half_away (valof val * 16)\<bar> \<le> 32767"
  shows "FloatToFix8_scaled_i val = Some (word_of_int (round_half_away (valof val * 16)))"
proof -
  define s where "s = fmul val (float_of_nat SCALE_8)"
  have "(0 :: int) \<le> 2 ^ (e - 1)" by simp
  with p have ap: "\<bar>p\<bar> < 2 ^ 24" by linarith
  have "s = float_round (sign val \<noteq> sign (float_of_nat SCALE_8)) (of_int p / 2 ^ e)"
    unfolding s_def by (simp add: fmul_finite val float_scale8)
  moreover have "\<bar>(of_int p :: rat) / 2 ^ e\<bar> = of_int \<bar>p\<bar> / 2 ^ e" by simp
  ultimately have s: "is_finite s" "valof s = of_int p / 2 ^ e"
    using float_round_dyadic[OF _ ap e(2), of "of_int p / 2 ^ e"]
    by (simp_all add: is_finite_def)
  define R where "R = round_half_away (of_int p / 2 ^ e)"
  from r have R: "- (2 ^ 15) \<le> R" "R < 2 ^ 15" unfolding R_def val(2) by simp_all
  show ?thesis
    unfolding FloatToFix8_scaled_i_def Let_def s_def[symmetric] val(2)
    by (rule round_int_dyadic[OF s e p]) (use R in \<open>simp_all add: R_def\<close>)
qed

lemma float_of_rat_dyadic:
  fixes m :: int and d :: nat
  assumes "\<bar>m\<bar> < 2 ^ 24" "d \<le> 149"
  shows "is_finite (float_of_rat (of_int m / 2 ^ d))"
    "valof (float_of_rat (of_int m / 2 ^ d)) = of_int m / 2 ^ d"
proof -
  have "\<bar>(of_int m :: rat) / 2 ^ d\<bar> = of_int \<bar>m\<bar> / 2 ^ d" by simp
  from float_round_dyadic[OF _ assms this]
  show "is_finite (float_of_rat (of_int m / 2 ^ d))"
    "valof (float_of_rat (of_int m / 2 ^ d)) = of_int m / 2 ^ d"
    by (simp_all add: float_of_rat_def is_finite_def)
qed

lemma FloatToFix16_dyadic:
  fixes m p :: int and d e :: nat
  assumes m: "\<bar>m\<bar> < 2 ^ 24" "d \<le> 149"
    and s: "(of_int m :: rat) / 2 ^ d * 256 = of_int p / 2 ^ e"
    and e: "1 \<le> e" "e \<le> 149"
    and p: "\<bar>p\<bar> + 2 ^ (e - 1) < 2 ^ 24"
  shows "FixedPoint_FloatToFix16 (float_of_rat (of_int m / 2 ^ d)) (Ref c) =
     Some (if out_of_range (- 32768) 32767 (round_half_away (of_int p / 2 ^ e))
           then E_NOT_OK else E_OK,
           Ref (Some (word_of_int (saturate (- 32768) 32767 (round_half_away (of_int p / 2 ^ e))))))"
proof -
  define x where "x = float_of_rat (of_int m / 2 ^ d)"
  define R where "R = round_half_away (of_int p / 2 ^ e)"
  have x: "is_finite x" "valof x * 256 = of_int p / 2 ^ e"
    unfolding x_def using float_of_rat_dyadic[OF m] s by simp_all
  have i: "FloatToFix16_scaled_i x = Some (word_of_int R)"
    unfolding R_def x(2)[symmetric] by (rule scaled_i16_dyadic[OF x e p])
  have "(0 :: int) \<le> 2 ^ (e - 1)" by simp
  with p have ap: "\<bar>p\<bar> < 2 ^ 24" by linarith
  have "\<bar>R\<bar> \<le> \<bar>p\<bar>"
    unfolding R_def by (rule round_half_away_abs_le) (rule abs_dyadic_le)
  with ap have "- (2 ^ 31) \<le> R" "R < 2 ^ 31" by simp_all
  then have sR: "sint (word_of_int R :: sint32) = R"
    by (simp add: sint_sbintrunc' signed_take_bit_int_eq_self)
  show ?thesis
    unfolding x_def[symmetric] R_def[symmetric] FloatToFix16_eq i
    by (simp add: sR saturate_id_iff)
qed

lemma FloatToFix8_dyadic:
  fixes m p :: int and d e :: nat
  assumes m: "\<bar>m\<bar> < 2 ^ 24" "d \<le> 149"
    and s: "(of_int m :: rat) / 2 ^ d * 16 = of_int p / 2 ^ e"
    and e: "1 \<le> e" "e \<le> 149"
    and p: "\<bar>p\<bar> + 2 ^ (e - 1) < 2 ^ 24"
    and r: "\<bar>round_half_away (of_int p / 2 ^ e)\<bar> \<le> 32767"
  shows "FixedPoint_FloatToFix8 (float_of_rat (of_int m / 2 ^ d)) (Ref c) =
     Some (if out_of_range (- 128) 127 (round_half_away (of_int p / 2 ^ e))
           then E_NOT_OK else E_OK,
           Ref (Some (word_of_int (saturate (- 128) 127 (round_half_away (of_int p / 2 ^ e))))))"
proof -
  define x where "x = float_of_rat (of_int m / 2 ^ d)"
  define R where "R = round_half_away (of_int p / 2 ^ e)"
  have x: "is_finite x" "valof x * 16 = of_int p / 2 ^ e"
    unfolding x_def using float_of_rat_dyadic[OF m] s by simp_all
  have i: "FloatToFix8_scaled_i x = Some (word_of_int R)"
    unfolding R_def x(2)[symmetric] by (rule scaled_i8_dyadic[OF x e p]) (simp add: x(2) r)
  from r have "- (2 ^ 15) \<le> R" "R < 2 ^ 15" unfolding R_def by simp_all
  then have sR: "sint (word_of_int R :: sint16) = R"
    by (simp add: sint_sbintrunc' signed_take_bit_int_eq_self)
  show ?thesis
    unfolding x_def[symmetric] R_def[symmetric] FloatToFix8_eq i
    by (simp add: sR saturate_id_iff)
qed

lemma floor_rat_numeral_divide:
  "\<lfloor>(numeral a :: rat) / numeral b\<rfloor> = numeral a div numeral b"
  by (metis floor_divide_of_int_eq of_int_numeral)

lemma floor_rat_neg_numeral_divide:
  "\<lfloor>- (numeral a :: rat) / numeral b\<rfloor> = - numeral a div numeral b"
  by (metis floor_divide_of_int_eq of_int_neg_numeral of_int_numeral)

lemma floor_rat_one_divide:
  "\<lfloor>(1 :: rat) / numeral b\<rfloor> = 1 div numeral b"
  by (metis floor_divide_of_int_eq of_int_1 of_int_numeral)

lemmas floor_rat_simps =
  floor_rat_numeral_divide floor_rat_neg_numeral_divide floor_rat_one_divide

lemmas eval_round_simps =
  round_half_away_def out_of_range_def saturate_def floor_rat_simps

subsection \<open>Division by a divisor that converts to raw zero\<close>

lemma Div16_zero_divisor:
  assumes "FixedPoint_FloatToFix16 val2 (Ref None) = Some (conv2, Ref (Some 0))"
  shows "FixedPoint_Div16 val1 val2 (Ref c) = Some (E_NOT_OK, Ref c)"
  using assms by (simp add: FixedPoint_Div16_def)

lemma Div8_zero_divisor:
  assumes "FixedPoint_FloatToFix8 val2 (Ref None) = Some (conv2, Ref (Some 0))"
  shows "FixedPoint_Div8 val1 val2 (Ref c) = Some (E_NOT_OK, Ref c)"
  using assms by (simp add: FixedPoint_Div8_def)

lemma FloatToFix16_zero:
  "FixedPoint_FloatToFix16 (float_of_rat 0) (Ref c) = Some (E_OK, Ref (Some 0))"
  using FloatToFix16_dyadic[of 0 0 0 1 c] by (simp add: eval_round_simps)

lemma FloatToFix8_zero:
  "FixedPoint_FloatToFix8 (float_of_rat 0) (Ref c) = Some (E_OK, Ref (Some 0))"
  using FloatToFix8_dyadic[of 0 0 0 1 c] by (simp add: eval_round_simps)

lemma FloatToFix16_tiny:
  "FixedPoint_FloatToFix16 (float_of_rat (1 / 1024)) (Ref c) = Some (E_OK, Ref (Some 0))"
  using FloatToFix16_dyadic[of 1 10 1 2 c] by (simp add: eval_round_simps)

lemma FloatToFix16_one:
  "FixedPoint_FloatToFix16 (float_of_rat 1) (Ref c) = Some (E_OK, Ref (Some 256))"
  using FloatToFix16_dyadic[of 1 0 512 1 c] by (simp add: eval_round_simps)

lemma FloatToFix16_200:
  "FixedPoint_FloatToFix16 (float_of_rat 200) (Ref c) = Some (E_NOT_OK, Ref (Some 32767))"
  using FloatToFix16_dyadic[of 200 0 102400 1 c] by (simp add: eval_round_simps)

lemma FloatToFix8_two:
  "FixedPoint_FloatToFix8 (float_of_rat 2) (Ref c) = Some (E_OK, Ref (Some 32))"
  using FloatToFix8_dyadic[of 2 0 64 1 c] by (simp add: eval_round_simps)

lemma FloatToFix8_five:
  "FixedPoint_FloatToFix8 (float_of_rat 5) (Ref c) = Some (E_OK, Ref (Some 80))"
  using FloatToFix8_dyadic[of 5 0 160 1 c] by (simp add: eval_round_simps)

lemma Div16_200_by_1:
  "FixedPoint_Div16 (float_of_rat 200) (float_of_rat 1) (Ref c)
     = Some (E_NOT_OK, Ref (Some (FixedPoint_Fix16ToFloat FIX16_MAX)))"
  by (simp add: FixedPoint_Div16_def FloatToFix16_one FloatToFix16_200 Div16_Core_eq
        div_rescale_def SHIFT_16_def saturate_def FIX16_MAX_def E_OK_def E_NOT_OK_def)

lemma Div8_5_by_2:
  "FixedPoint_Div8 (float_of_rat 5) (float_of_rat 2) (Ref c)
     = Some (E_OK, Ref (Some (FixedPoint_Fix8ToFloat 40)))"
  by (simp add: FixedPoint_Div8_def FloatToFix8_two FloatToFix8_five Div8_Core_eq
        div_rescale_def SHIFT_8_def saturate_def E_OK_def E_NOT_OK_def)

text \<open>
  Claim C7.  When the divisor's converted fixed-point representation is raw zero, a public
  Div operation with a non-null output slot returns \<open>E_NOT_OK\<close> and leaves the slot as it
  was, whatever the dividend is: the dividend is not converted and the core division is
  not run.
\<close>

theorem C7_division_by_zero_keeps_slot:
  "(FixedPoint_FloatToFix16 val2 (Ref None) = Some (conv2, Ref (Some 0))
      \<longrightarrow> FixedPoint_Div16 val1 val2 (Ref c) = Some (E_NOT_OK, Ref c))
   \<and> (FixedPoint_FloatToFix8 val2' (Ref None) = Some (conv2', Ref (Some 0))
      \<longrightarrow> FixedPoint_Div8 val1' val2' (Ref c') = Some (E_NOT_OK, Ref c'))"
  by (simp add: Div16_zero_divisor Div8_zero_divisor)

text \<open>
  Witness for C7: a nonzero divisor below half the 16-bit resolution (\<open>1 / 1024\<close>) and a
  zero divisor for the 8-bit operation, the slot holding 77 before the call; the second
  dividend is a NaN, whose conversion would be undefined.
\<close>

theorem C7_division_by_zero_keeps_slot_witness:
  "FixedPoint_Div16 (float_of_rat 5) (float_of_rat (1 / 1024)) (Ref (Some (float_of_rat 77)))
     = Some (E_NOT_OK, Ref (Some (float_of_rat 77)))
   \<and> FixedPoint_Div8 float_nan (float_of_rat 0) (Ref (Some (float_of_rat 77)))
     = Some (E_NOT_OK, Ref (Some (float_of_rat 77)))"
  using C7_division_by_zero_keeps_slot[of "float_of_rat (1 / 1024)" E_OK "float_of_rat 5"
      "Some (float_of_rat 77)" "float_of_rat 0" E_OK float_nan "Some (float_of_rat 77)"]
    FloatToFix16_tiny FloatToFix8_zero
  by simp

text \<open>
  Claim C8, as stated, fails: \<open>Std_ReturnType\<close> has the two codes \<open>E_OK\<close> and \<open>E_NOT_OK\<close>
  only, and a division by zero returns the same \<open>E_NOT_OK\<close> as a saturated division.
  Dividing 5 by 0 and dividing 200 by 1 (200 saturates the 16-bit format) both return
  \<open>E_NOT_OK\<close>.
\<close>

theorem C8_counterexample:
  "FixedPoint_Div16 (float_of_rat 5) (float_of_rat 0) (Ref (Some (float_of_rat 77)))
     = Some (E_NOT_OK, Ref (Some (float_of_rat 77)))
   \<and> FixedPoint_Div16 (float_of_rat 200) (float_of_rat 1) (Ref (Some (float_of_rat 77)))
     = Some (E_NOT_OK, Ref (Some (FixedPoint_Fix16ToFloat FIX16_MAX)))
   \<and> FixedPoint_FloatToFix16 (float_of_rat 0) (Ref None) = Some (E_OK, Ref (Some 0))
   \<and> FixedPoint_FloatToFix16 (float_of_rat 1) (Ref None) = Some (E_OK, Ref (Some 256))
   \<and> FixedPoint_FloatToFix16 (float_of_rat 200) (Ref None) = Some (E_NOT_OK, Ref (Some FIX16_MAX))"
  using Div16_zero_divisor[OF FloatToFix16_zero, of "float_of_rat 5" "Some (float_of_rat 77)"]
  by (simp add: Div16_200_by_1 FloatToFix16_zero FloatToFix16_one FloatToFix16_200 FIX16_MAX_def)

text \<open>
  Claim C8, amended.  A public Div operation returns \<open>E_OK\<close> or \<open>E_NOT_OK\<close> and nothing
  else.  A division by zero (the divisor converts to raw zero) returns \<open>E_NOT_OK\<close>, the
  status a saturated division returns as well; the two differ in the output slot, which
  only the division by zero leaves as it was.
\<close>

theorem C8_division_status_two_valued:
  "(FixedPoint_Div16 val1 val2 r = Some (st, out) \<longrightarrow> st = E_OK \<or> st = E_NOT_OK)
   \<and> (FixedPoint_Div8 val1' val2' r' = Some (st', out') \<longrightarrow> st' = E_OK \<or> st' = E_NOT_OK)
   \<and> (FixedPoint_FloatToFix16 val2 (Ref None) = Some (conv2, Ref (Some 0))
        \<longrightarrow> map_option fst (FixedPoint_Div16 val1 val2 (Ref c)) = Some E_NOT_OK)
   \<and> (FixedPoint_FloatToFix8 val2' (Ref None) = Some (conv2', Ref (Some 0))
        \<longrightarrow> map_option fst (FixedPoint_Div8 val1' val2' (Ref c')) = Some E_NOT_OK)"
proof -
  have "st = E_OK \<or> st = E_NOT_OK" if "FixedPoint_Div16 val1 val2 r = Some (st, out)"
    using that
    by (auto simp: FixedPoint_Div16_def Let_def
          split: ptr.splits option.splits prod.splits if_splits Option.bind_splits)
  moreover have "st' = E_OK \<or> st' = E_NOT_OK" if "FixedPoint_Div8 val1' val2' r' = Some (st', out')"
    using that
    by (auto simp: FixedPoint_Div8_def Let_def
          split: ptr.splits option.splits prod.splits if_splits Option.bind_splits)
  ultimately show ?thesis
    by (simp add: Div16_zero_divisor Div8_zero_divisor)
qed

text \<open>
  Witness for C8 (amended): the saturated 16-bit division of 200 by 1, the 8-bit division
  of 5 by 2, and divisions by zero in both widths.
\<close>

theorem C8_division_status_two_valued_witness:
  "FixedPoint_Div16 (float_of_rat 200) (float_of_rat 1) (Ref None)
      = Some (E_NOT_OK, Ref (Some (FixedPoint_Fix16ToFloat FIX16_MAX)))
   \<and> (E_NOT_OK = E_OK \<or> E_NOT_OK = E_NOT_OK)
   \<and> FixedPoint_Div8 (float_of_rat 5) (float_of_rat 2) (Ref None)
      = Some (E_OK, Ref (Some (FixedPoint_Fix8ToFloat 40)))
   \<and> (E_OK = E_OK \<or> E_OK = E_NOT_OK)
   \<and> FixedPoint_FloatToFix16 (float_of_rat 0) (Ref None) = Some (E_OK, Ref (Some 0))
   \<and> map_option fst (FixedPoint_Div16 (float_of_rat 5) (float_of_rat 0) (Ref None)) = Some E_NOT_OK
   \<and> FixedPoint_FloatToFix8 (float_of_rat 0) (Ref None) = Some (E_OK, Ref (Some 0))
   \<and> map_option fst (FixedPoint_Div8 (float_of_rat 5) (float_of_rat 0) (Ref None)) = Some E_NOT_OK"
proof -
  note d16 = Div16_200_by_1[of None]
  note d8 = Div8_5_by_2[of None]
  note z16 = FloatToFix16_zero[of None]
  note z8 = FloatToFix8_zero[of None]
  from C8_division_status_two_valued[of "float_of_rat 200" "float_of_rat 1" "Ref None" E_NOT_OK
      "Ref (Some (FixedPoint_Fix16ToFloat FIX16_MAX))" "float_of_rat 5" "float_of_rat 2"
      "Ref None" E_OK "Ref (Some (FixedPoint_Fix8ToFloat 40))"] d16 d8
  have a: "E_NOT_OK = E_OK \<or> E_NOT_OK = E_NOT_OK" "E_OK = E_OK \<or> E_OK = E_NOT_OK"
    by blast+
  from C8_division_status_two_valued[of "float_of_rat 5" "float_of_rat 0" "Ref None" E_NOT_OK
      "Ref None" "float_of_rat 5" "float_of_rat 0" "Ref None" E_NOT_OK "Ref None" E_OK None E_OK None]
    z16 z8
  have b: "map_option fst (FixedPoint_Div16 (float_of_rat 5) (float_of_rat 0) (Ref None)) = Some E_NOT_OK"
    "map_option fst (FixedPoint_Div8 (float_of_rat 5) (float_of_rat 0) (Ref None)) = Some E_NOT_OK"
    by blast+
  from a b d16 d8 z16 z8 show ?thesis by blast
qed

section \<open>Rounding is monotone around grid values\<close>

subsection \<open>The magnitude of a rounded value\<close>

lemma round_half_even_ge:
  assumes "of_int N \<le> x"
  shows "N \<le> round_half_even x"
proof -
  from assms have "N \<le> \<lfloor>x\<rfloor>" by (simp add: le_floor_iff)
  then show ?thesis by (simp add: round_half_even_def Let_def)
qed

lemma round_half_even_le:
  assumes "x \<le> of_int N"
  shows "round_half_even x \<le> N"
proof (cases "x = of_int N")
  case True
  then show ?thesis by (simp add: round_half_even_def)
next
  case False
  with assms have "x < of_int N" by simp
  then have "\<lfloor>x\<rfloor> < N" by (simp add: floor_less_iff)
  then show ?thesis by (simp add: round_half_even_def Let_def)
qed

lemma bitlen_mono:
  assumes "x \<le> y"
  shows "bitlen x \<le> bitlen y"
proof (cases "0 < y")
  case True
  from bitlen_bounds[OF True] assms have "x < 2 ^ nat (bitlen y)" by simp
  then show ?thesis by (simp add: bitlen_le_iff_power bitlen_nonneg)
next
  case False
  with assms have "x \<le> 0" by simp
  then have "bitlen x = 0" by (simp add: bitlen_eq_zero_iff)
  then show ?thesis by (simp add: bitlen_nonneg)
qed

text \<open>
  For a non-negative rational \<open>t\<close> (a magnitude in units of the smallest subnormal), the
  significand after rounding lies between 0 and \<open>2 ^ 24\<close>, and is at least \<open>2 ^ 23\<close> as
  soon as low bits are dropped.
\<close>

lemma rounded_significand_bounds:
  fixes t :: rat
  assumes "0 \<le> t"
  defines "k \<equiv> nat (bitlen \<lfloor>t\<rfloor> - 24)"
  defines "n \<equiv> round_half_even (t / 2 ^ k)"
  shows "0 \<le> n" "n \<le> 2 ^ 24" "0 < k \<Longrightarrow> 2 ^ 23 \<le> n"
proof -
  have pk: "(0 :: rat) < 2 ^ k" by simp
  have "(of_int 0 :: rat) \<le> t / 2 ^ k" using assms(1) by simp
  then show "0 \<le> n" unfolding n_def by (rule round_half_even_ge)
  have up: "t < 2 ^ (24 + k)"
  proof (cases "0 < \<lfloor>t\<rfloor>")
    case True
    from bitlen_bounds[OF True] have "\<lfloor>t\<rfloor> < 2 ^ nat (bitlen \<lfloor>t\<rfloor>)" by simp
    also have "\<dots> \<le> 2 ^ (24 + k)"
      unfolding k_def by (intro power_increasing) auto
    finally have "\<lfloor>t\<rfloor> < 2 ^ (24 + k)" .
    then have "\<lfloor>t\<rfloor> < \<lfloor>(2 :: rat) ^ (24 + k)\<rfloor>" by simp
    then show ?thesis using floor_less_cancel by blast
  next
    case False
    then have "\<lfloor>t\<rfloor> < 1" by simp
    then have "t < 1" by (simp add: floor_less_iff)
    also have "(1 :: rat) \<le> 2 ^ (24 + k)" by simp
    finally show ?thesis .
  qed
  have "t / 2 ^ k \<le> of_int (2 ^ 24)"
  proof -
    have "t / 2 ^ k < 2 ^ (24 + k) / 2 ^ k" using up pk by (simp add: divide_strict_right_mono)
    then show ?thesis by (simp add: power_add)
  qed
  then show "n \<le> 2 ^ 24" unfolding n_def by (rule round_half_even_le)
  show "2 ^ 23 \<le> n" if "0 < k"
  proof -
    from that have L: "bitlen \<lfloor>t\<rfloor> = 24 + int k" by (simp add: k_def)
    then have pos: "0 < \<lfloor>t\<rfloor>" using bitlen_eq_zero_iff[of "\<lfloor>t\<rfloor>"] by linarith
    from bitlen_bounds[OF pos] have "2 ^ nat (bitlen \<lfloor>t\<rfloor> - 1) \<le> \<lfloor>t\<rfloor>" by simp
    moreover have "nat (bitlen \<lfloor>t\<rfloor> - 1) = 23 + k" using L by simp
    ultimately have "(2 :: int) ^ (23 + k) \<le> \<lfloor>t\<rfloor>" by simp
    then have "of_int ((2 :: int) ^ (23 + k)) \<le> t" by (simp only: le_floor_iff)
    then have "(2 :: rat) ^ (23 + k) \<le> t" by simp
    then have "(2 :: rat) ^ (23 + k) / 2 ^ k \<le> t / 2 ^ k" using pk by (simp add: divide_right_mono)
    then have "of_int (2 ^ 23) \<le> t / 2 ^ k" by (simp add: power_add)
    then show ?thesis unfolding n_def by (rule round_half_even_ge)
  qed
qed

lemma float_round_magnitude:
  fixes q :: rat
  defines "k \<equiv> nat (bitlen \<lfloor>\<bar>q\<bar> * 2 ^ 149\<rfloor> - 24)"
  defines "n \<equiv> round_half_even (\<bar>q\<bar> * 2 ^ 149 / 2 ^ k)"
  shows "float_round z q = float_infinity (q < 0) \<and> 2 ^ 277 \<le> n * 2 ^ k
       \<or> expo (float_round z q) \<noteq> 255
         \<and> valof (float_round z q) = (if q < 0 then - 1 else 1) * (of_int n * 2 ^ k) / 2 ^ 149"
proof -
  have t0: "0 \<le> \<bar>q\<bar> * 2 ^ 149" by simp
  note nb = rounded_significand_bounds[OF t0, folded k_def, folded n_def]
  define s where "s = (if q = 0 then z else q < 0)"
  define E :: "8 word" where "E = of_nat (k + 1)"
  define E' :: "8 word" where "E' = of_nat (k + 2)"
  define F :: "23 word" where "F = word_of_int (n - 2 ^ 23)"
  define G :: "23 word" where "G = word_of_int n"
  have fr: "float_round z q =
     (if n < 2 ^ 23 then Float s 0 G
      else if n < 2 ^ 24 then (if k + 1 < 255 then Float s E F else float_infinity s)
      else (if k + 2 < 255 then Float s E' 0 else float_infinity s))"
    unfolding float_round_def Let_def k_def[symmetric] n_def[symmetric] s_def[symmetric]
      E_def E'_def F_def G_def
    by simp
  have q0: "n = 0" if "q = 0"
    using that by (simp add: n_def round_half_even_def)
  have sq: "valof (Float s e f) = (if q < 0 then - 1 else 1) * X / 2 ^ 149"
    if "(of_int (if e = 0 then uint f else 2 ^ 23 + uint f) * 2 ^ (unat e - 1) :: rat) = X"
      and "q = 0 \<longrightarrow> X = 0" for e f X
    using that by (auto simp: valof_Float s_def)
  have unat_small: "unat (of_nat j :: 8 word) = j" if "j < 255" for j
  proof -
    have "unat (of_nat j :: 8 word) = j mod 2 ^ LENGTH(8)" by (rule unat_of_nat)
    also have "\<dots> = j" using that by simp
    finally show ?thesis .
  qed
  have nz: "(w :: 8 word) \<noteq> 0" "w \<noteq> 255" if "unat w = j" "0 < j" "j < 255" for w j
  proof -
    show "w \<noteq> 0"
    proof
      assume "w = 0"
      then have "unat w = 0" by simp
      with that show False by simp
    qed
    show "w \<noteq> 255"
    proof
      assume "w = 255"
      then have "unat w = 255" by simp
      with that show False by simp
    qed
  qed
  consider (sub) "n < 2 ^ 23" | (norm) "2 ^ 23 \<le> n" "n < 2 ^ 24" | (carry) "n = 2 ^ 24"
    using nb(2) by linarith
  then show ?thesis
  proof cases
    case sub
    with nb(3) have k0: "k = 0" by (cases "0 < k") auto
    have G: "uint G = n" unfolding G_def using nb(1) sub by (rule uint_frac_of_int)
    have "valof (Float s 0 G) = (if q < 0 then - 1 else 1) * (of_int n * 2 ^ k) / 2 ^ 149"
      by (rule sq) (simp_all add: G k0 q0)
    then show ?thesis using sub by (simp add: fr)
  next
    case norm
    show ?thesis
    proof (cases "k + 1 < 255")
      case True
      have ue: "unat E = k + 1" unfolding E_def using True by (rule unat_small)
      from nz[OF ue] True have e: "E \<noteq> 0" "E \<noteq> 255" by simp_all
      have F: "uint F = n - 2 ^ 23"
        unfolding F_def using norm by (intro uint_frac_of_int) simp_all
      have qn: "q \<noteq> 0" using q0 norm by auto
      have "valof (Float s E F) = (if q < 0 then - 1 else 1) * (of_int n * 2 ^ k) / 2 ^ 149"
        by (rule sq) (use e qn in \<open>simp_all add: F ue\<close>)
      then show ?thesis using norm True e by (simp add: fr)
    next
      case False
      have "q \<noteq> 0" using q0 norm by auto
      then have "s = (q < 0)" by (simp add: s_def)
      moreover have "(2 :: int) ^ 277 \<le> n * 2 ^ k"
      proof -
        have "(2 :: int) ^ 23 * 2 ^ 254 \<le> n * 2 ^ k"
          using False norm by (intro mult_mono power_increasing) simp_all
        then show ?thesis by simp
      qed
      ultimately show ?thesis using norm False by (simp add: fr)
    qed
  next
    case carry
    show ?thesis
    proof (cases "k + 2 < 255")
      case True
      have ue: "unat E' = k + 2" unfolding E'_def using True by (rule unat_small)
      from nz[OF ue] True have e: "E' \<noteq> 0" "E' \<noteq> 255" by simp_all
      have qn: "q \<noteq> 0" using q0 carry by auto
      have "valof (Float s E' 0) = (if q < 0 then - 1 else 1) * (of_int n * 2 ^ k) / 2 ^ 149"
        by (rule sq) (use e qn in \<open>simp_all add: ue carry\<close>)
      then show ?thesis using carry True e by (simp add: fr)
    next
      case False
      have "q \<noteq> 0" using q0 carry by auto
      then have "s = (q < 0)" by (simp add: s_def)
      moreover have "(2 :: int) ^ 277 \<le> n * 2 ^ k"
      proof -
        have "(2 :: int) ^ 24 * 2 ^ 253 \<le> n * 2 ^ k"
          using False carry by (intro mult_mono power_increasing) simp_all
        then show ?thesis by simp
      qed
      ultimately show ?thesis using carry False by (simp add: fr)
    qed
  qed
qed

text \<open>
  Rounding never moves a value across a number of the binary32 grid: a grid value below
  the magnitude of \<open>q\<close> is also below the magnitude of the rounded \<open>q\<close>.
\<close>

lemma float_round_lower_bound:
  fixes m :: int and j :: nat
  assumes m: "0 \<le> m" "m < 2 ^ 24" and le: "of_int (m * 2 ^ j) / 2 ^ 149 \<le> \<bar>q\<bar>"
  shows "float_round z q = float_infinity (q < 0)
       \<or> expo (float_round z q) \<noteq> 255
         \<and> (if q < 0 then valof (float_round z q) \<le> - (of_int (m * 2 ^ j) / 2 ^ 149)
              else of_int (m * 2 ^ j) / 2 ^ 149 \<le> valof (float_round z q))"
proof -
  define t where "t = \<bar>q\<bar> * 2 ^ 149"
  define k where "k = nat (bitlen \<lfloor>t\<rfloor> - 24)"
  define n where "n = round_half_even (t / 2 ^ k)"
  define R where "R = m * 2 ^ j"
  define kR where "kR = nat (bitlen R - 24)"
  have t0: "0 \<le> t" by (simp add: t_def)
  note nb = rounded_significand_bounds[OF t0, folded k_def, folded n_def]
  from grid_normalise[OF m, of j] obtain nR
    where nR: "R = nR * 2 ^ kR" "0 \<le> nR" "nR < 2 ^ 24"
    unfolding R_def[symmetric] kR_def[symmetric] by blast
  have Rt: "of_int R \<le> t"
  proof -
    have "of_int R / 2 ^ 149 * 2 ^ 149 \<le> \<bar>q\<bar> * 2 ^ 149"
      using le unfolding R_def by (intro mult_right_mono) simp_all
    then show ?thesis by (simp add: t_def)
  qed
  then have "R \<le> \<lfloor>t\<rfloor>" by (simp add: le_floor_iff)
  then have "bitlen R \<le> bitlen \<lfloor>t\<rfloor>" by (rule bitlen_mono)
  then have kk: "kR \<le> k" by (simp add: kR_def k_def)
  have Rn: "R \<le> n * 2 ^ k"
  proof (cases "kR = k")
    case True
    have "(of_int nR :: rat) = of_int R / 2 ^ k" by (simp add: nR(1) True)
    also have "\<dots> \<le> t / 2 ^ k" using Rt by (simp add: divide_right_mono)
    finally have "nR \<le> n" unfolding n_def by (rule round_half_even_ge)
    then have "nR * 2 ^ k \<le> n * 2 ^ k" by (intro mult_right_mono) simp_all
    then show ?thesis by (simp add: nR(1) True)
  next
    case False
    with kk have lt: "kR < k" by simp
    then have "0 < k" by simp
    from nb(3)[OF this] have n23: "2 ^ 23 \<le> n" .
    have "R \<le> 2 ^ 24 * 2 ^ kR"
      unfolding nR(1) using nR(3) by (intro mult_right_mono) simp_all
    also have "\<dots> = 2 ^ (24 + kR)" by (simp add: power_add)
    also have "\<dots> \<le> 2 ^ (23 + k)" using lt by (intro power_increasing) simp_all
    also have "\<dots> = 2 ^ 23 * 2 ^ k" by (simp add: power_add)
    also have "\<dots> \<le> n * 2 ^ k" using n23 by (intro mult_right_mono) simp_all
    finally show ?thesis .
  qed
  have b: "(of_int R :: rat) / 2 ^ 149 \<le> (of_int n * 2 ^ k) / 2 ^ 149"
  proof -
    have "(of_int R :: rat) \<le> of_int (n * 2 ^ k)" using Rn by (simp only: of_int_le_iff)
    then show ?thesis by (simp add: divide_right_mono)
  qed
  from float_round_magnitude[of z q, folded t_def, folded k_def, folded n_def]
  show ?thesis
  proof
    assume "float_round z q = float_infinity (q < 0) \<and> 2 ^ 277 \<le> n * 2 ^ k"
    then show ?thesis by simp
  next
    assume a: "expo (float_round z q) \<noteq> 255 \<and>
      valof (float_round z q) = (if q < 0 then - 1 else 1) * (of_int n * 2 ^ k) / 2 ^ 149"
    show ?thesis
    proof (cases "q < 0")
      case True
      with a b show ?thesis unfolding R_def by simp
    next
      case False
      with a b show ?thesis unfolding R_def by simp
    qed
  qed
qed

text \<open>
  In the other direction, a grid value of finite size above the magnitude of \<open>q\<close> is also
  above the magnitude of the rounded \<open>q\<close>, which is then finite.
\<close>

lemma float_round_upper_bound:
  fixes m :: int and j :: nat
  assumes m: "0 \<le> m" "m < 2 ^ 24" and fin: "m * 2 ^ j < 2 ^ 277"
    and le: "\<bar>q\<bar> \<le> of_int (m * 2 ^ j) / 2 ^ 149"
  shows "expo (float_round z q) \<noteq> 255"
    "\<bar>valof (float_round z q)\<bar> \<le> of_int (m * 2 ^ j) / 2 ^ 149"
proof -
  define t where "t = \<bar>q\<bar> * 2 ^ 149"
  define k where "k = nat (bitlen \<lfloor>t\<rfloor> - 24)"
  define n where "n = round_half_even (t / 2 ^ k)"
  define R where "R = m * 2 ^ j"
  define kR where "kR = nat (bitlen R - 24)"
  have t0: "0 \<le> t" by (simp add: t_def)
  note nb = rounded_significand_bounds[OF t0, folded k_def, folded n_def]
  from grid_normalise[OF m, of j] obtain nR
    where nR: "R = nR * 2 ^ kR" "0 \<le> nR" "nR < 2 ^ 24" "0 < kR \<longrightarrow> 2 ^ 23 \<le> nR"
    unfolding R_def[symmetric] kR_def[symmetric] by blast
  have tR: "t \<le> of_int R"
  proof -
    have "\<bar>q\<bar> * 2 ^ 149 \<le> of_int R / 2 ^ 149 * 2 ^ 149"
      using le unfolding R_def by (intro mult_right_mono) simp_all
    then show ?thesis by (simp add: t_def)
  qed
  then have "\<lfloor>t\<rfloor> \<le> R" by (simp add: floor_le_iff)
  then have "bitlen \<lfloor>t\<rfloor> \<le> bitlen R" by (rule bitlen_mono)
  then have kk: "k \<le> kR" by (simp add: kR_def k_def)
  have nR': "n * 2 ^ k \<le> R"
  proof (cases "k = kR")
    case True
    have "t / 2 ^ k \<le> of_int R / 2 ^ k" using tR by (simp add: divide_right_mono)
    also have "\<dots> = of_int nR" by (simp add: nR(1) True)
    finally have "n \<le> nR" unfolding n_def by (rule round_half_even_le)
    then have "n * 2 ^ k \<le> nR * 2 ^ k" by (intro mult_right_mono) simp_all
    then show ?thesis by (simp add: nR(1) True)
  next
    case False
    with kk have lt: "k < kR" by simp
    then have "0 < kR" by simp
    with nR(4) have n23: "2 ^ 23 \<le> nR" by simp
    have "n * 2 ^ k \<le> 2 ^ 24 * 2 ^ k"
      using nb(2) by (intro mult_right_mono) simp_all
    also have "\<dots> = 2 ^ (24 + k)" by (simp add: power_add)
    also have "\<dots> \<le> 2 ^ (23 + kR)" using lt by (intro power_increasing) simp_all
    also have "\<dots> = 2 ^ 23 * 2 ^ kR" by (simp add: power_add)
    also have "\<dots> \<le> nR * 2 ^ kR" using n23 by (intro mult_right_mono) simp_all
    finally show ?thesis by (simp add: nR(1))
  qed
  have b: "(of_int n * 2 ^ k) / 2 ^ 149 \<le> (of_int R :: rat) / 2 ^ 149"
  proof -
    have "(of_int (n * 2 ^ k) :: rat) \<le> of_int R" using nR' by (simp only: of_int_le_iff)
    then show ?thesis by (simp add: divide_right_mono)
  qed
  have n0: "(0 :: rat) \<le> of_int n * 2 ^ k" using nb(1) by simp
  from float_round_magnitude[of z q, folded t_def, folded k_def, folded n_def] nR' fin
  have a: "expo (float_round z q) \<noteq> 255"
    "valof (float_round z q) = (if q < 0 then - 1 else 1) * (of_int n * 2 ^ k) / 2 ^ 149"
    unfolding R_def by auto
  show "expo (float_round z q) \<noteq> 255" by (rule a)
  have "\<bar>valof (float_round z q)\<bar> = (of_int n * 2 ^ k) / 2 ^ 149"
    unfolding a(2) using nb(1) by (simp add: abs_mult)
  with b show "\<bar>valof (float_round z q)\<bar> \<le> of_int (m * 2 ^ j) / 2 ^ 149"
    unfolding R_def by simp
qed

lemma valof_on_grid:
  "\<exists>m j. 0 \<le> m \<and> m < 2 ^ 24 \<and> \<bar>valof x\<bar> = of_int (m * 2 ^ j) / 2 ^ 149"
proof -
  have u: "0 \<le> uint (frac x)" "uint (frac x) < 2 ^ 23"
    using uint_lt2p[of "frac x"] by simp_all
  then have s: "0 \<le> significand x" "significand x < 2 ^ 24"
    by (simp_all add: significand_def)
  have "\<bar>valof x\<bar> = of_int (significand x * 2 ^ (unat (expo x) - 1)) / 2 ^ 149"
    using s(1) by (simp add: valof_def abs_mult)
  with s show ?thesis by blast
qed

lemma scaled_on_grid:
  "\<exists>m j. 0 \<le> m \<and> m < 2 ^ 24 \<and> \<bar>valof x * 2 ^ g\<bar> = of_int (m * 2 ^ j) / 2 ^ 149"
proof -
  from valof_on_grid[of x] obtain m j
    where mj: "0 \<le> m" "m < 2 ^ 24" "\<bar>valof x\<bar> = of_int (m * 2 ^ j) / 2 ^ 149"
    by blast
  have "\<bar>valof x * 2 ^ g\<bar> = \<bar>valof x\<bar> * 2 ^ g" by (simp add: abs_mult)
  also have "\<dots> = of_int (m * 2 ^ (j + g)) / 2 ^ 149"
    unfolding mj(3) by (simp add: power_add)
  finally show ?thesis using mj(1,2) by blast
qed

subsection \<open>Inputs beyond the range are clamped\<close>

lemma float_to_sint_Some:
  assumes "float_to_sint x = Some (i :: 'a::len word)"
  shows "is_finite x" "sint i = truncate (valof x)"
proof -
  from assms have f: "is_finite x"
    and b: "- (2 ^ (LENGTH('a) - 1)) \<le> truncate (valof x)" "truncate (valof x) < 2 ^ (LENGTH('a) - 1)"
    and i: "i = word_of_int (truncate (valof x))"
    by (auto simp: float_to_sint_def split: if_splits)
  show "is_finite x" by (rule f)
  show "sint i = truncate (valof x)"
    unfolding i using b by (simp add: sint_sbintrunc' signed_take_bit_int_eq_self)
qed

lemma float_to_sint_not_finite: "\<not> is_finite x \<Longrightarrow> float_to_sint x = None"
  by (simp add: float_to_sint_def)

lemma not_finite_infinity: "\<not> is_finite (float_infinity b)" "is_inf (float_infinity b)"
  "\<not> is_nan (float_infinity b)"
  by (simp_all add: is_finite_def is_inf_def is_nan_def float_infinity_def)

lemma not_finite_nan: "\<not> is_finite float_nan" "is_nan float_nan"
  by (simp_all add: is_finite_def is_nan_def float_nan_def)

lemma add_half_not_finite:
  assumes "\<not> is_finite x"
  shows "\<not> is_finite (fadd x (float_of_rat (1 / 2)))" "\<not> is_finite (fsub x (float_of_rat (1 / 2)))"
proof -
  have h: "\<not> is_nan (float_of_rat (1 / 2))" "\<not> is_inf (float_of_rat (1 / 2))"
    "\<not> is_nan (fneg (float_of_rat (1 / 2)))" "\<not> is_inf (fneg (float_of_rat (1 / 2)))"
    using float_half(1) is_finite_fneg[of "float_of_rat (1 / 2)"]
    by (simp_all add: is_finite_simps)
  from assms have "is_nan x \<or> is_inf x" by (auto simp: is_finite_def is_nan_def is_inf_def)
  then show "\<not> is_finite (fadd x (float_of_rat (1 / 2)))"
    "\<not> is_finite (fsub x (float_of_rat (1 / 2)))"
    using assms h by (auto simp: fadd_def fsub_def not_finite_nan)
qed

lemma fmul_not_finite:
  assumes "\<not> is_finite x" "is_finite S" "valof S \<noteq> 0"
  shows "\<not> is_finite (fmul x S)"
proof -
  from assms(1) have "is_nan x \<or> is_inf x" by (auto simp: is_finite_def is_nan_def is_inf_def)
  then show ?thesis
    using assms(2,3) by (auto simp: fmul_def not_finite_nan not_finite_infinity is_finite_simps)
qed

text \<open>
  The scaled input after rounding, when the conversion to the integer temporary is
  defined: the input is finite, the scaling by a power of two is exact, and the
  temporary holds the truncated sum or difference.
\<close>

lemma scaled_i_defined:
  fixes i :: "'a::len word"
  assumes S: "is_finite S" "valof S = 2 ^ g"
    and res: "(let scaled_f = fmul val S in
               if fge scaled_f (float_of_rat 0)
               then float_to_sint (fadd scaled_f (float_of_rat (1 / 2)))
               else float_to_sint (fsub scaled_f (float_of_rat (1 / 2)))) = Some i"
  obtains t where "is_finite val" "is_finite t" "sint i = truncate (valof t)"
    "t = (if 0 \<le> valof val * 2 ^ g
          then float_round (sign (fmul val S) \<and> sign (float_of_rat (1 / 2))) (valof val * 2 ^ g + 1 / 2)
          else float_round (sign (fmul val S) \<and> \<not> sign (float_of_rat (1 / 2))) (valof val * 2 ^ g - 1 / 2))"
proof -
  define sf where "sf = fmul val S"
  define t where "t = (if fge sf (float_of_rat 0) then fadd sf (float_of_rat (1 / 2))
                        else fsub sf (float_of_rat (1 / 2)))"
  have r: "float_to_sint t = Some i"
    using res unfolding Let_def sf_def[symmetric] t_def by (simp split: if_splits)
  from float_to_sint_Some[OF r] have t: "is_finite t" "sint i = truncate (valof t)" .
  have fsf: "is_finite sf"
  proof (rule ccontr)
    assume "\<not> is_finite sf"
    from add_half_not_finite[OF this] have "\<not> is_finite t" by (simp add: t_def)
    with t(1) show False by simp
  qed
  have S0: "valof S \<noteq> 0" by (simp add: S(2))
  have fv: "is_finite val"
  proof (rule ccontr)
    assume "\<not> is_finite val"
    from fmul_not_finite[OF this S(1) S0] fsf show False by (simp add: sf_def)
  qed
  have sfr: "sf = float_round (sign val \<noteq> sign S) (valof val * 2 ^ g)"
    unfolding sf_def by (simp add: fmul_finite fv S)
  from scaled_on_grid[of val g] obtain m j
    where mj: "0 \<le> m" "m < 2 ^ 24" "\<bar>valof val * 2 ^ g\<bar> = of_int (m * 2 ^ j) / 2 ^ 149"
    by blast
  from float_round_grid[OF mj, of "sign val \<noteq> sign S"] fsf
  have vs: "valof sf = valof val * 2 ^ g"
    unfolding sfr[symmetric] by (auto simp: is_finite_def float_infinity_def)
  have "t = (if 0 \<le> valof val * 2 ^ g
          then float_round (sign sf \<and> sign (float_of_rat (1 / 2))) (valof val * 2 ^ g + 1 / 2)
          else float_round (sign sf \<and> \<not> sign (float_of_rat (1 / 2))) (valof val * 2 ^ g - 1 / 2))"
    unfolding t_def by (simp add: fge_finite fsf float_zero fadd_finite fsub_finite float_half vs)
  with fv t show ?thesis unfolding sf_def by (rule that)
qed

lemma truncate_ge: "of_int N \<le> x \<Longrightarrow> 0 \<le> N \<Longrightarrow> N \<le> truncate x"
  by (simp add: truncate_def le_floor_iff)

lemma truncate_le: "x \<le> of_int N \<Longrightarrow> N \<le> 0 \<Longrightarrow> truncate x \<le> N"
  by (auto simp: truncate_def ceiling_le_iff floor_le_iff)

lemma scaled_i_above:
  fixes i :: "'a::len word"
  assumes S: "is_finite S" "valof S = 2 ^ g"
    and res: "(let scaled_f = fmul val S in
               if fge scaled_f (float_of_rat 0)
               then float_to_sint (fadd scaled_f (float_of_rat (1 / 2)))
               else float_to_sint (fsub scaled_f (float_of_rat (1 / 2)))) = Some i"
    and N: "1 \<le> N" "N < 2 ^ 24" "of_int N \<le> valof val * 2 ^ g + 1 / 2"
  shows "N \<le> sint i"
proof -
  from scaled_i_defined[OF S res] obtain t where t: "is_finite t" "sint i = truncate (valof t)"
    "t = (if 0 \<le> valof val * 2 ^ g
          then float_round (sign (fmul val S) \<and> sign (float_of_rat (1 / 2))) (valof val * 2 ^ g + 1 / 2)
          else float_round (sign (fmul val S) \<and> \<not> sign (float_of_rat (1 / 2))) (valof val * 2 ^ g - 1 / 2))"
    by blast
  define q where "q = valof val * 2 ^ g + 1 / 2"
  from N have q1: "1 \<le> q" unfolding q_def by linarith
  then have s0: "0 \<le> valof val * 2 ^ g" unfolding q_def by linarith
  have tq: "t = float_round (sign (fmul val S) \<and> sign (float_of_rat (1 / 2))) q"
    using t(3) s0 by (simp add: q_def)
  have N0: "0 \<le> N" using N(1) by simp
  have "of_int (N * 2 ^ 149) / 2 ^ 149 \<le> \<bar>q\<bar>"
    using N(3) q1 by (simp add: q_def)
  from float_round_lower_bound[OF N0 N(2) this, of "sign (fmul val S) \<and> sign (float_of_rat (1 / 2))"]
    t(1) q1
  have "of_int N \<le> valof t"
    unfolding tq[symmetric] by (auto simp: not_finite_infinity)
  then show ?thesis unfolding t(2) using N0 by (rule truncate_ge)
qed

lemma scaled_i_below:
  fixes i :: "'a::len word"
  assumes S: "is_finite S" "valof S = 2 ^ g"
    and res: "(let scaled_f = fmul val S in
               if fge scaled_f (float_of_rat 0)
               then float_to_sint (fadd scaled_f (float_of_rat (1 / 2)))
               else float_to_sint (fsub scaled_f (float_of_rat (1 / 2)))) = Some i"
    and N: "1 \<le> N" "N < 2 ^ 24" "valof val * 2 ^ g - 1 / 2 \<le> - of_int N"
  shows "sint i \<le> - N"
proof -
  from scaled_i_defined[OF S res] obtain t where t: "is_finite t" "sint i = truncate (valof t)"
    "t = (if 0 \<le> valof val * 2 ^ g
          then float_round (sign (fmul val S) \<and> sign (float_of_rat (1 / 2))) (valof val * 2 ^ g + 1 / 2)
          else float_round (sign (fmul val S) \<and> \<not> sign (float_of_rat (1 / 2))) (valof val * 2 ^ g - 1 / 2))"
    by blast
  define q where "q = valof val * 2 ^ g - 1 / 2"
  from N have q1: "q \<le> - 1" unfolding q_def by linarith
  then have s0: "\<not> 0 \<le> valof val * 2 ^ g" unfolding q_def by linarith
  have tq: "t = float_round (sign (fmul val S) \<and> \<not> sign (float_of_rat (1 / 2))) q"
    using t(3) s0 by (simp add: q_def)
  have N0: "0 \<le> N" using N(1) by simp
  have "of_int (N * 2 ^ 149) / 2 ^ 149 \<le> \<bar>q\<bar>"
    using N(3) q1 by (simp add: q_def)
  from float_round_lower_bound[OF N0 N(2) this, of "sign (fmul val S) \<and> \<not> sign (float_of_rat (1 / 2))"]
    t(1) q1
  have "valof t \<le> of_int (- N)"
    unfolding tq[symmetric] by (auto simp: not_finite_infinity)
  then show ?thesis unfolding t(2) using N0 by (intro truncate_le) simp_all
qed

subsection \<open>Where the conversion to the integer temporary is defined\<close>

lemma truncate_abs_le:
  assumes "\<bar>x\<bar> \<le> of_int B"
  shows "\<bar>truncate x\<bar> \<le> B"
proof (cases "0 \<le> x")
  case True
  then have "0 \<le> \<lfloor>x\<rfloor>" by simp
  moreover have "\<lfloor>x\<rfloor> \<le> B" using assms True by (simp add: floor_le_iff)
  ultimately show ?thesis using True by (simp add: truncate_def)
next
  case False
  then have "\<lceil>x\<rceil> \<le> 0" by (simp add: ceiling_le_iff)
  moreover have "- B \<le> \<lceil>x\<rceil>" using assms False by (simp add: le_ceiling_iff)
  ultimately show ?thesis using False by (simp add: truncate_def)
qed

lemma scaled_i_exists:
  fixes B mB :: int and jB :: nat
  assumes S: "is_finite S" "valof S = 2 ^ g"
    and v: "is_finite val"
    and B: "0 \<le> mB" "mB < 2 ^ 24" "B = mB * 2 ^ jB" "B < 2 ^ 128" "B < 2 ^ (LENGTH('a) - 1)"
    and bound: "\<bar>valof val * 2 ^ g\<bar> + 1 / 2 \<le> of_int B"
  shows "\<exists>i :: 'a::len word.
           (let scaled_f = fmul val S in
            if fge scaled_f (float_of_rat 0)
            then float_to_sint (fadd scaled_f (float_of_rat (1 / 2)))
            else float_to_sint (fsub scaled_f (float_of_rat (1 / 2)))) = Some i"
proof -
  define q where "q = valof val * 2 ^ g"
  define sf where "sf = fmul val S"
  have Bg: "(of_int B :: rat) = of_int (mB * 2 ^ (jB + 149)) / 2 ^ 149"
    by (simp add: B(3) power_add)
  have Bf: "mB * 2 ^ (jB + 149) < 2 ^ 277"
  proof -
    have "mB * 2 ^ (jB + 149) = B * 2 ^ 149" by (simp add: B(3) power_add)
    also have "\<dots> < 2 ^ 128 * 2 ^ 149" using B(4) by (intro mult_strict_right_mono) simp_all
    finally show ?thesis by simp
  qed
  have sfr: "sf = float_round (sign val \<noteq> sign S) q"
    unfolding sf_def q_def by (simp add: fmul_finite v S)
  have qB: "\<bar>q\<bar> \<le> of_int B" using bound unfolding q_def by linarith
  from float_round_upper_bound[OF B(1,2) Bf qB[unfolded Bg], of "sign val \<noteq> sign S"]
  have fsf: "is_finite sf" by (simp add: sfr is_finite_def)
  from scaled_on_grid[of val g] obtain m j
    where mj: "0 \<le> m" "m < 2 ^ 24" "\<bar>q\<bar> = of_int (m * 2 ^ j) / 2 ^ 149"
    unfolding q_def by blast
  from float_round_grid[OF mj, of "sign val \<noteq> sign S"] fsf
  have vs: "valof sf = q"
    unfolding sfr[symmetric] by (auto simp: is_finite_def float_infinity_def)
  define t where "t = (if 0 \<le> q then fadd sf (float_of_rat (1 / 2)) else fsub sf (float_of_rat (1 / 2)))"
  define z where "z = (if 0 \<le> q then sign sf \<and> sign (float_of_rat (1 / 2))
                       else sign sf \<and> \<not> sign (float_of_rat (1 / 2)))"
  define y where "y = (if 0 \<le> q then q + 1 / 2 else q - 1 / 2)"
  have ty: "t = float_round z y"
    unfolding t_def z_def y_def by (simp add: fadd_finite fsub_finite fsf float_half vs)
  have "\<bar>y\<bar> = \<bar>q\<bar> + 1 / 2" unfolding y_def by simp
  with bound have yB: "\<bar>y\<bar> \<le> of_int B" unfolding q_def by simp
  from float_round_upper_bound[OF B(1,2) Bf yB[unfolded Bg], of z]
  have ft: "is_finite t" and vt: "\<bar>valof t\<bar> \<le> of_int B"
    unfolding ty Bg by (simp_all add: is_finite_def)
  from truncate_abs_le[OF vt] B(5)
  have "- (2 ^ (LENGTH('a) - 1)) \<le> truncate (valof t)" "truncate (valof t) < 2 ^ (LENGTH('a) - 1)"
    by linarith+
  with ft have "float_to_sint t = Some (word_of_int (truncate (valof t)) :: 'a word)"
    by (simp add: float_to_sint_def)
  moreover have "(let scaled_f = fmul val S in
            if fge scaled_f (float_of_rat 0)
            then float_to_sint (fadd scaled_f (float_of_rat (1 / 2)))
            else float_to_sint (fsub scaled_f (float_of_rat (1 / 2)))) = (float_to_sint t :: 'a word option)"
    unfolding Let_def sf_def[symmetric] t_def by (simp add: fge_finite fsf float_zero vs)
  ultimately show ?thesis by simp
qed

lemma FloatToFix16_defined:
  assumes "is_finite val" "\<bar>valof val * 256\<bar> + 1 / 2 \<le> 2147483520"
  shows "\<exists>i. FloatToFix16_scaled_i val = Some i"
  unfolding FloatToFix16_scaled_i_def
  by (rule scaled_i_exists[OF float_scale16(1) _ assms(1), of 8 16777215 2147483520 7])
    (use assms(2) in \<open>simp_all add: float_scale16(2)\<close>)


lemma scale_values: "(of_nat SCALE_16 :: rat) = 256" "(of_nat SCALE_8 :: rat) = 16"
  by (simp_all add: SCALE_16_def SHIFT_16_def SCALE_8_def SHIFT_8_def)

subsection \<open>Neighbours on the binary32 grid\<close>

lemma grid_gap_below:
  fixes m M :: int and j J :: nat
  assumes m: "0 \<le> m" "m < 2 ^ 24" and M: "2 ^ 23 < M" and lt: "m * 2 ^ j < M * 2 ^ J"
  shows "m * 2 ^ j \<le> (M - 1) * 2 ^ J"
proof (cases "J \<le> j")
  case True
  then have e: "(2 :: int) ^ j = 2 ^ (j - J) * 2 ^ J" by (simp flip: power_add)
  have "m * 2 ^ (j - J) * 2 ^ J < M * 2 ^ J" using lt by (simp add: e mult.assoc)
  then have "m * 2 ^ (j - J) < M" by simp
  then have "m * 2 ^ (j - J) \<le> M - 1" by simp
  then have "m * 2 ^ (j - J) * 2 ^ J \<le> (M - 1) * 2 ^ J" by (intro mult_right_mono) simp_all
  then show ?thesis by (simp add: e mult.assoc)
next
  case False
  then have jJ: "j + 1 \<le> J" by simp
  have "m * 2 ^ j \<le> 2 ^ 24 * 2 ^ j" using m by (intro mult_right_mono) simp_all
  also have "\<dots> = 2 ^ 23 * 2 ^ (j + 1)" by simp
  also have "\<dots> \<le> 2 ^ 23 * 2 ^ J" using jJ by (intro mult_left_mono power_increasing) simp_all
  also have "\<dots> \<le> (M - 1) * 2 ^ J" using M by (intro mult_right_mono) simp_all
  finally show ?thesis .
qed

lemma grid_gap_above:
  fixes m M :: int and j J :: nat
  assumes m: "0 \<le> m" "m < 2 ^ 24" and M: "2 ^ 23 \<le> M" and lt: "M * 2 ^ J < m * 2 ^ j"
  shows "(M + 1) * 2 ^ J \<le> m * 2 ^ j"
proof (cases "J \<le> j")
  case True
  then have e: "(2 :: int) ^ j = 2 ^ (j - J) * 2 ^ J" by (simp flip: power_add)
  have "M * 2 ^ J < m * 2 ^ (j - J) * 2 ^ J" using lt by (simp add: e mult.assoc)
  then have "M < m * 2 ^ (j - J)" by simp
  then have "M + 1 \<le> m * 2 ^ (j - J)" by simp
  then have "(M + 1) * 2 ^ J \<le> m * 2 ^ (j - J) * 2 ^ J" by (intro mult_right_mono) simp_all
  then show ?thesis by (simp add: e mult.assoc)
next
  case False
  then have jJ: "j + 1 \<le> J" by simp
  have "m * 2 ^ j \<le> 2 ^ 24 * 2 ^ j" using m by (intro mult_right_mono) simp_all
  also have "\<dots> = 2 ^ 23 * 2 ^ (j + 1)" by simp
  also have "\<dots> \<le> 2 ^ 23 * 2 ^ J" using jJ by (intro mult_left_mono power_increasing) simp_all
  also have "\<dots> \<le> M * 2 ^ J" using M by (intro mult_right_mono) simp_all
  finally have "m * 2 ^ j \<le> M * 2 ^ J" .
  with lt show ?thesis by simp
qed

text \<open>
  The scaled value of a float is a number of the grid, so a bound of the grid that it
  misses is missed by a whole step.
\<close>

lemma scaled_gap_below:
  fixes M :: int and J :: nat
  assumes M: "2 ^ 23 < M" and lt: "\<bar>valof x * 2 ^ g\<bar> < of_int (M * 2 ^ J) / 2 ^ 149"
  shows "\<bar>valof x * 2 ^ g\<bar> \<le> of_int ((M - 1) * 2 ^ J) / 2 ^ 149"
proof -
  from scaled_on_grid[of x g] obtain m j
    where mj: "0 \<le> m" "m < 2 ^ 24" "\<bar>valof x * 2 ^ g\<bar> = of_int (m * 2 ^ j) / 2 ^ 149"
    by blast
  have "(of_int (m * 2 ^ j) :: rat) < of_int (M * 2 ^ J)"
    using lt unfolding mj(3) by (simp add: divide_less_cancel)
  then have "m * 2 ^ j < M * 2 ^ J" by (simp only: of_int_less_iff)
  from grid_gap_below[OF mj(1,2) M this]
  have "(of_int (m * 2 ^ j) :: rat) \<le> of_int ((M - 1) * 2 ^ J)" by (simp only: of_int_le_iff)
  then show ?thesis unfolding mj(3) by (simp add: divide_right_mono)
qed

lemma scaled_gap_above:
  fixes M :: int and J :: nat
  assumes M: "2 ^ 23 \<le> M" and lt: "of_int (M * 2 ^ J) / 2 ^ 149 < \<bar>valof x * 2 ^ g\<bar>"
  shows "of_int ((M + 1) * 2 ^ J) / 2 ^ 149 \<le> \<bar>valof x * 2 ^ g\<bar>"
proof -
  from scaled_on_grid[of x g] obtain m j
    where mj: "0 \<le> m" "m < 2 ^ 24" "\<bar>valof x * 2 ^ g\<bar> = of_int (m * 2 ^ j) / 2 ^ 149"
    by blast
  have "(of_int (M * 2 ^ J) :: rat) < of_int (m * 2 ^ j)"
    using lt unfolding mj(3) by (simp add: divide_less_cancel)
  then have "M * 2 ^ J < m * 2 ^ j" by (simp only: of_int_less_iff)
  from grid_gap_above[OF mj(1,2) M this]
  have "(of_int ((M + 1) * 2 ^ J) :: rat) \<le> of_int (m * 2 ^ j)" by (simp only: of_int_le_iff)
  then show ?thesis unfolding mj(3) by (simp add: divide_right_mono)
qed

subsection \<open>The integer temporary as a function of the scaled value\<close>

lemma float_round_sign_irrelevant: "q \<noteq> 0 \<Longrightarrow> float_round z q = float_round False q"
  by (simp add: float_round_def Let_def)

lemma float_round_sign_of_value:
  assumes "is_finite (float_round z y)"
  shows "0 \<le> y \<Longrightarrow> 0 \<le> valof (float_round z y)" "y < 0 \<Longrightarrow> valof (float_round z y) \<le> 0"
proof -
  have le: "of_int (0 * 2 ^ 0) / 2 ^ 149 \<le> \<bar>y\<bar>" by simp
  from float_round_lower_bound[of 0 0 y z, OF _ _ le] assms
  have r: "if y < 0 then valof (float_round z y) \<le> 0 else 0 \<le> valof (float_round z y)"
    by (auto simp: not_finite_infinity)
  show "0 \<le> y \<Longrightarrow> 0 \<le> valof (float_round z y)" using r by (simp split: if_splits)
  show "y < 0 \<Longrightarrow> valof (float_round z y) \<le> 0" using r by (simp split: if_splits)
qed

lemma truncate_le_of_less: "x < of_int (N + 1) \<Longrightarrow> 0 \<le> N \<Longrightarrow> truncate x \<le> N"
proof -
  assume a: "x < of_int (N + 1)" "0 \<le> N"
  show ?thesis
  proof (cases "0 \<le> x")
    case True
    then have e: "truncate x = \<lfloor>x\<rfloor>" by (simp add: truncate_def)
    from a(1) have "\<lfloor>x\<rfloor> < N + 1" by (simp only: floor_less_iff)
    then show ?thesis unfolding e by linarith
  next
    case False
    then have e: "truncate x = \<lceil>x\<rceil>" by (simp add: truncate_def)
    from False have "x \<le> of_int 0" by simp
    then have "\<lceil>x\<rceil> \<le> 0" by (simp only: ceiling_le_iff)
    then show ?thesis unfolding e using a(2) by linarith
  qed
qed

lemma truncate_ge_of_less: "- of_int (N + 1) < x \<Longrightarrow> 0 \<le> N \<Longrightarrow> - N \<le> truncate x"
proof -
  assume a: "- of_int (N + 1) < x" "0 \<le> N"
  show ?thesis
  proof (cases "0 \<le> x")
    case True
    then have e: "truncate x = \<lfloor>x\<rfloor>" by (simp add: truncate_def)
    from True have "of_int 0 \<le> x" by simp
    then have "0 \<le> \<lfloor>x\<rfloor>" by (simp only: le_floor_iff)
    then show ?thesis unfolding e using a(2) by linarith
  next
    case False
    then have e: "truncate x = \<lceil>x\<rceil>" by (simp add: truncate_def)
    from a(1) have "of_int (- N - 1) < x" by simp
    then have "- N - 1 < \<lceil>x\<rceil>" by (simp only: less_ceiling_iff)
    then show ?thesis unfolding e by linarith
  qed
qed

text \<open>
  For a finite input whose scaled value stays finite, the temporary is the conversion of
  the rounded sum or difference; the sign flag of the rounding plays no part, because the
  sum or difference is never zero.
\<close>

lemma scaled_i_as_round:
  fixes mB :: int and jB :: nat
  assumes S: "is_finite S" "valof S = 2 ^ g"
    and v: "is_finite val"
    and B: "0 \<le> mB" "mB < 2 ^ 24" "mB * 2 ^ jB < 2 ^ 277"
    and bound: "\<bar>valof val * 2 ^ g\<bar> \<le> of_int (mB * 2 ^ jB) / 2 ^ 149"
  shows "(let scaled_f = fmul val S in
            if fge scaled_f (float_of_rat 0)
            then float_to_sint (fadd scaled_f (float_of_rat (1 / 2)))
            else float_to_sint (fsub scaled_f (float_of_rat (1 / 2))))
       = (float_to_sint (float_round False
            (if 0 \<le> valof val * 2 ^ g then valof val * 2 ^ g + 1 / 2
             else valof val * 2 ^ g - 1 / 2)) :: 'a::len word option)"
proof -
  define q where "q = valof val * 2 ^ g"
  define sf where "sf = fmul val S"
  have sfr: "sf = float_round (sign val \<noteq> sign S) q"
    unfolding sf_def q_def by (simp add: fmul_finite v S)
  from float_round_upper_bound[OF B bound[folded q_def], of "sign val \<noteq> sign S"]
  have fsf: "is_finite sf" by (simp add: sfr is_finite_def)
  from scaled_on_grid[of val g] obtain m j
    where mj: "0 \<le> m" "m < 2 ^ 24" "\<bar>q\<bar> = of_int (m * 2 ^ j) / 2 ^ 149"
    unfolding q_def by blast
  from float_round_grid[OF mj, of "sign val \<noteq> sign S"] fsf
  have vs: "valof sf = q"
    unfolding sfr[symmetric] by (auto simp: is_finite_def float_infinity_def)
  define t where "t = (if 0 \<le> q then fadd sf (float_of_rat (1 / 2)) else fsub sf (float_of_rat (1 / 2)))"
  define z where "z = (if 0 \<le> q then sign sf \<and> sign (float_of_rat (1 / 2))
                       else sign sf \<and> \<not> sign (float_of_rat (1 / 2)))"
  define y where "y = (if 0 \<le> q then q + 1 / 2 else q - 1 / 2)"
  have ty: "t = float_round z y"
    unfolding t_def z_def y_def by (simp add: fadd_finite fsub_finite fsf float_half vs)
  have "y \<noteq> 0" unfolding y_def by (simp split: if_splits)
  then have "float_round z y = float_round False y" by (rule float_round_sign_irrelevant)
  then have tF: "t = float_round False y" unfolding ty .
  have "(let scaled_f = fmul val S in
            if fge scaled_f (float_of_rat 0)
            then float_to_sint (fadd scaled_f (float_of_rat (1 / 2)))
            else float_to_sint (fsub scaled_f (float_of_rat (1 / 2)))) = (float_to_sint t :: 'a word option)"
    unfolding Let_def sf_def[symmetric] t_def by (simp add: fge_finite fsf float_zero vs)
  then show ?thesis unfolding tF y_def q_def .
qed



lemma scaled_i_above_grid:
  fixes i :: "'a::len word" and mN :: int and jN :: nat
  assumes S: "is_finite S" "valof S = 2 ^ g"
    and res: "(let scaled_f = fmul val S in
               if fge scaled_f (float_of_rat 0)
               then float_to_sint (fadd scaled_f (float_of_rat (1 / 2)))
               else float_to_sint (fsub scaled_f (float_of_rat (1 / 2)))) = Some i"
    and N: "0 \<le> mN" "mN < 2 ^ 24" "N = mN * 2 ^ jN" "1 \<le> N"
      "of_int N \<le> valof val * 2 ^ g + 1 / 2"
  shows "N \<le> sint i"
proof -
  from scaled_i_defined[OF S res] obtain t where t: "is_finite t" "sint i = truncate (valof t)"
    "t = (if 0 \<le> valof val * 2 ^ g
          then float_round (sign (fmul val S) \<and> sign (float_of_rat (1 / 2))) (valof val * 2 ^ g + 1 / 2)
          else float_round (sign (fmul val S) \<and> \<not> sign (float_of_rat (1 / 2))) (valof val * 2 ^ g - 1 / 2))"
    by blast
  define q where "q = valof val * 2 ^ g + 1 / 2"
  from N(4,5) have q1: "1 \<le> q" unfolding q_def by linarith
  then have s0: "0 \<le> valof val * 2 ^ g" unfolding q_def by linarith
  have tq: "t = float_round (sign (fmul val S) \<and> sign (float_of_rat (1 / 2))) q"
    using t(3) s0 by (simp add: q_def)
  have N0: "0 \<le> N" using N(4) by simp
  have "(of_int (mN * 2 ^ (jN + 149)) :: rat) / 2 ^ 149 = of_int N"
    by (simp add: N(3) power_add)
  then have "of_int (mN * 2 ^ (jN + 149)) / 2 ^ 149 \<le> \<bar>q\<bar>"
    using N(5) q1 by (simp add: q_def)
  from float_round_lower_bound[OF N(1,2) this, of "sign (fmul val S) \<and> sign (float_of_rat (1 / 2))"]
    t(1) q1
  have "of_int (mN * 2 ^ (jN + 149)) / 2 ^ 149 \<le> valof t"
    unfolding tq[symmetric] by (auto simp: not_finite_infinity)
  then have "of_int N \<le> valof t"
    unfolding \<open>(of_int (mN * 2 ^ (jN + 149)) :: rat) / 2 ^ 149 = of_int N\<close> .
  then show ?thesis unfolding t(2) using N0 by (rule truncate_ge)
qed

lemma scaled_i_below_grid:
  fixes i :: "'a::len word" and mN :: int and jN :: nat
  assumes S: "is_finite S" "valof S = 2 ^ g"
    and res: "(let scaled_f = fmul val S in
               if fge scaled_f (float_of_rat 0)
               then float_to_sint (fadd scaled_f (float_of_rat (1 / 2)))
               else float_to_sint (fsub scaled_f (float_of_rat (1 / 2)))) = Some i"
    and N: "0 \<le> mN" "mN < 2 ^ 24" "N = mN * 2 ^ jN" "1 \<le> N"
      "valof val * 2 ^ g - 1 / 2 \<le> - of_int N"
  shows "sint i \<le> - N"
proof -
  from scaled_i_defined[OF S res] obtain t where t: "is_finite t" "sint i = truncate (valof t)"
    "t = (if 0 \<le> valof val * 2 ^ g
          then float_round (sign (fmul val S) \<and> sign (float_of_rat (1 / 2))) (valof val * 2 ^ g + 1 / 2)
          else float_round (sign (fmul val S) \<and> \<not> sign (float_of_rat (1 / 2))) (valof val * 2 ^ g - 1 / 2))"
    by blast
  define q where "q = valof val * 2 ^ g - 1 / 2"
  from N(4,5) have q1: "q \<le> - 1" unfolding q_def by linarith
  then have s0: "\<not> 0 \<le> valof val * 2 ^ g" unfolding q_def by linarith
  have tq: "t = float_round (sign (fmul val S) \<and> \<not> sign (float_of_rat (1 / 2))) q"
    using t(3) s0 by (simp add: q_def)
  have N0: "0 \<le> N" using N(4) by simp
  have e: "(of_int (mN * 2 ^ (jN + 149)) :: rat) / 2 ^ 149 = of_int N"
    by (simp add: N(3) power_add)
  then have "of_int (mN * 2 ^ (jN + 149)) / 2 ^ 149 \<le> \<bar>q\<bar>"
    using N(5) q1 by (simp add: q_def)
  from float_round_lower_bound[OF N(1,2) this, of "sign (fmul val S) \<and> \<not> sign (float_of_rat (1 / 2))"]
    t(1) q1
  have "valof t \<le> - (of_int (mN * 2 ^ (jN + 149)) / 2 ^ 149)"
    unfolding tq[symmetric] by (auto simp: not_finite_infinity)
  then have "valof t \<le> of_int (- N)" unfolding e by simp
  then show ?thesis unfolding t(2) using N0 by (intro truncate_le) simp_all
qed

lemma scaled_i_not_finite:
  assumes S: "is_finite S" "valof S = 2 ^ g" and v: "\<not> is_finite val"
  shows "(let scaled_f = fmul val S in
            if fge scaled_f (float_of_rat 0)
            then float_to_sint (fadd scaled_f (float_of_rat (1 / 2)))
            else float_to_sint (fsub scaled_f (float_of_rat (1 / 2)))) = (None :: 'a::len word option)"
proof -
  have S0: "valof S \<noteq> 0" by (simp add: S(2))
  from fmul_not_finite[OF v S(1) S0] have "\<not> is_finite (fmul val S)" .
  from add_half_not_finite[OF this] show ?thesis
    by (simp add: Let_def float_to_sint_not_finite)
qed

text \<open>
  Existence of the temporary from a bound of the grid on the magnitude of the sum or
  difference: the integral part is at most \<open>Lim\<close> in magnitude, and the negative side of
  the temporary reaches one further than the positive side.
\<close>

lemma scaled_i_exists_gen:
  fixes mB Lim :: int and jB :: nat
  assumes S: "is_finite S" "valof S = 2 ^ g"
    and v: "is_finite val"
    and B: "0 \<le> mB" "mB < 2 ^ 24" "mB * 2 ^ jB < 2 ^ 277"
    and bound: "\<bar>valof val * 2 ^ g\<bar> + 1 / 2 \<le> of_int (mB * 2 ^ jB) / 2 ^ 149"
    and lim: "of_int (mB * 2 ^ jB) / 2 ^ 149 < (of_int (Lim + 1) :: rat)" "0 \<le> Lim"
    and fit: "if 0 \<le> valof val * 2 ^ g then Lim < 2 ^ (LENGTH('a) - 1) else Lim \<le> 2 ^ (LENGTH('a) - 1)"
  shows "\<exists>i :: 'a::len word.
           (let scaled_f = fmul val S in
            if fge scaled_f (float_of_rat 0)
            then float_to_sint (fadd scaled_f (float_of_rat (1 / 2)))
            else float_to_sint (fsub scaled_f (float_of_rat (1 / 2)))) = Some i"
proof -
  define q where "q = valof val * 2 ^ g"
  define y where "y = (if 0 \<le> q then q + 1 / 2 else q - 1 / 2)"
  define t where "t = float_round False y"
  have qB: "\<bar>q\<bar> \<le> of_int (mB * 2 ^ jB) / 2 ^ 149" using bound unfolding q_def by linarith
  note eq = scaled_i_as_round[OF S v B qB[unfolded q_def], where 'a='a, folded q_def, folded y_def,
      folded t_def]
  have "\<bar>y\<bar> = \<bar>q\<bar> + 1 / 2" unfolding y_def by simp
  with bound have yB: "\<bar>y\<bar> \<le> of_int (mB * 2 ^ jB) / 2 ^ 149" unfolding q_def by simp
  from float_round_upper_bound[OF B yB, of False]
  have ft: "is_finite t" and vt: "\<bar>valof t\<bar> \<le> of_int (mB * 2 ^ jB) / 2 ^ 149"
    unfolding t_def by (simp_all add: is_finite_def)
  from vt lim(1) have "valof t < of_int (Lim + 1)" "- of_int (Lim + 1) < valof t" by linarith+
  from truncate_le_of_less[OF this(1) lim(2)] truncate_ge_of_less[OF this(2) lim(2)]
  have tr: "truncate (valof t) \<le> Lim" "- Lim \<le> truncate (valof t)" .
  have rng: "- (2 ^ (LENGTH('a) - 1)) \<le> truncate (valof t) \<and> truncate (valof t) < 2 ^ (LENGTH('a) - 1)"
  proof (cases "0 \<le> q")
    case True
    with fit have "Lim < 2 ^ (LENGTH('a) - 1)" by (simp add: q_def)
    with tr show ?thesis by linarith
  next
    case False
    with fit have L: "Lim \<le> 2 ^ (LENGTH('a) - 1)" by (simp add: q_def)
    from False have "y < 0" unfolding y_def by simp
    from float_round_sign_of_value(2)[OF ft[unfolded t_def] this]
    have "valof t \<le> 0" by (simp add: t_def)
    then have "truncate (valof t) \<le> 0" by (auto simp: truncate_def ceiling_le_iff floor_le_iff)
    moreover have "(0 :: int) < 2 ^ (LENGTH('a) - 1)" by simp
    ultimately show ?thesis using tr L by linarith
  qed
  with ft have "float_to_sint t = Some (word_of_int (truncate (valof t)) :: 'a word)"
    by (simp add: float_to_sint_def)
  then show ?thesis unfolding eq by simp
qed

lemma round_top16:
  "(float_to_sint (float_round False (4294967041 / 2)) :: sint32 option) = Some (word_of_int 2147483520)"
  by code_simp

lemma round_bottom16:
  "(float_to_sint (float_round False (- (4294967297 / 2))) :: sint32 option) = Some (word_of_int (- 2147483648))"
  by code_simp

subsection \<open>Where the conversion helpers are defined\<close>

lemma float_scale16_pow: "is_finite (float_of_nat SCALE_16)" "valof (float_of_nat SCALE_16) = 2 ^ 8"
  by (simp_all add: float_scale16)

lemma float_scale8_pow: "is_finite (float_of_nat SCALE_8)" "valof (float_of_nat SCALE_8) = 2 ^ 4"
  by (simp_all add: float_scale8)

lemma FloatToFix16_undefined:
  assumes "\<not> convertible16 val"
  shows "FloatToFix16_scaled_i val = None"
proof (cases "FloatToFix16_scaled_i val")
  case None
  then show ?thesis .
next
  case (Some i)
  note res = Some[unfolded FloatToFix16_scaled_i_def]
  define q where "q = valof val * 2 ^ 8"
  from scaled_i_defined[OF float_scale16_pow res] have fin: "is_finite val" by blast
  with assms have "2147483648 \<le> q \<or> q < - 2147483648"
    by (auto simp: convertible16_def scale_values q_def)
  then have False
  proof
    assume "2147483648 \<le> q"
    then have "of_int 2147483648 \<le> valof val * 2 ^ 8 + 1 / 2" by (simp add: q_def)
    from scaled_i_above_grid[OF float_scale16_pow res, of 8388608 2147483648 8, OF _ _ _ _ this]
    have "2147483648 \<le> sint i" by simp
    with sint_lt[of i] show False by simp
  next
    assume a: "q < - 2147483648"
    then have "of_int (8388608 * 2 ^ 157) / 2 ^ 149 < \<bar>valof val * 2 ^ 8\<bar>" by (simp add: q_def)
    from scaled_gap_above[OF _ this] have "2147483904 \<le> \<bar>q\<bar>" by (simp add: q_def)
    with a have "valof val * 2 ^ 8 - 1 / 2 \<le> - of_int 2147483904" by (simp add: q_def)
    from scaled_i_below_grid[OF float_scale16_pow res, of 8388609 2147483904 8, OF _ _ _ _ this]
    have "sint i \<le> - 2147483904" by simp
    with sint_ge[of i] show False by simp
  qed
  then show ?thesis ..
qed

lemma FloatToFix16_defined_tight:
  assumes "convertible16 val"
  shows "\<exists>i. FloatToFix16_scaled_i val = Some i"
proof -
  define q where "q = valof val * 2 ^ 8"
  from assms have fin: "is_finite val" and lo: "- 2147483648 \<le> q" and hi: "q < 2147483648"
    by (simp_all add: convertible16_def scale_values q_def)
  show ?thesis
  proof (cases "0 \<le> q")
    case True
    show ?thesis
    proof (cases "\<bar>q\<bar> + 1 / 2 \<le> 2147483520")
      case small: True
      then have "\<bar>valof val * 256\<bar> + 1 / 2 \<le> 2147483520" by (simp add: q_def)
      from FloatToFix16_defined[OF fin this] show ?thesis .
    next
      case False
      then have "of_int (16777214 * 2 ^ 156) / 2 ^ 149 < \<bar>valof val * 2 ^ 8\<bar>"
        by (simp add: q_def)
      from scaled_gap_above[OF _ this] have ge: "2147483520 \<le> \<bar>q\<bar>" by (simp add: q_def)
      from True hi have "\<bar>valof val * 2 ^ 8\<bar> < of_int (16777216 * 2 ^ 156) / 2 ^ 149"
        by (simp add: q_def)
      from scaled_gap_below[OF _ this] have "\<bar>q\<bar> \<le> 2147483520" by (simp add: q_def)
      with ge True have qe: "valof val * 2 ^ 8 = 2147483520" unfolding q_def by linarith
      have B: "(0 :: int) \<le> 16777215" "(16777215 :: int) < 2 ^ 24" "(16777215 :: int) * 2 ^ 156 < 2 ^ 277"
        by simp_all
      have bound: "\<bar>valof val * 2 ^ 8\<bar> \<le> of_int (16777215 * 2 ^ 156) / 2 ^ 149"
        unfolding qe by simp
      note eq = scaled_i_as_round[OF float_scale16_pow fin B bound, where 'a = 32]
      show ?thesis unfolding FloatToFix16_scaled_i_def eq qe by (simp add: round_top16)
    qed
  next
    case False
    show ?thesis
    proof (cases "q = - 2147483648")
      case True
      then have qe: "valof val * 2 ^ 8 = - 2147483648" by (simp add: q_def)
      have B: "(0 :: int) \<le> 8388608" "(8388608 :: int) < 2 ^ 24" "(8388608 :: int) * 2 ^ 157 < 2 ^ 277"
        by simp_all
      have bound: "\<bar>valof val * 2 ^ 8\<bar> \<le> of_int (8388608 * 2 ^ 157) / 2 ^ 149"
        unfolding qe by simp
      note eq = scaled_i_as_round[OF float_scale16_pow fin B bound, where 'a = 32]
      show ?thesis unfolding FloatToFix16_scaled_i_def eq qe by (simp add: round_bottom16)
    next
      case ne: False
      with lo False have "\<bar>valof val * 2 ^ 8\<bar> < of_int (16777216 * 2 ^ 156) / 2 ^ 149"
        by (simp add: q_def)
      from scaled_gap_below[OF _ this] have le: "\<bar>q\<bar> \<le> 2147483520" by (simp add: q_def)
      have B: "(0 :: int) \<le> 8388608" "(8388608 :: int) < 2 ^ 24" "(8388608 :: int) * 2 ^ 157 < 2 ^ 277"
        by simp_all
      have bound: "\<bar>valof val * 2 ^ 8\<bar> + 1 / 2 \<le> of_int (8388608 * 2 ^ 157) / 2 ^ 149"
        using le by (simp add: q_def)
      have lim: "of_int (8388608 * 2 ^ 157) / 2 ^ 149 < (of_int (2147483648 + 1) :: rat)"
        "(0 :: int) \<le> 2147483648"
        by simp_all
      have fit: "if 0 \<le> valof val * 2 ^ 8 then (2147483648 :: int) < 2 ^ (LENGTH(32) - 1)
                 else (2147483648 :: int) \<le> 2 ^ (LENGTH(32) - 1)"
        using False by (simp add: q_def)
      from scaled_i_exists_gen[OF float_scale16_pow fin B bound lim fit]
      show ?thesis unfolding FloatToFix16_scaled_i_def .
    qed
  qed
qed

lemma FloatToFix8_undefined:
  assumes "\<not> convertible8 val"
  shows "FloatToFix8_scaled_i val = None"
proof (cases "FloatToFix8_scaled_i val")
  case None
  then show ?thesis .
next
  case (Some i)
  note res = Some[unfolded FloatToFix8_scaled_i_def]
  define q where "q = valof val * 2 ^ 4"
  from scaled_i_defined[OF float_scale8_pow res] have fin: "is_finite val" by blast
  with assms have "32767 + 1 / 2 \<le> q \<or> q \<le> - 32768 - 1 / 2"
    by (auto simp: convertible8_def scale_values q_def)
  then have False
  proof
    assume "32767 + 1 / 2 \<le> q"
    then have "of_int 32768 \<le> valof val * 2 ^ 4 + 1 / 2" by (simp add: q_def)
    from scaled_i_above[OF float_scale8_pow res _ _ this]
    have "32768 \<le> sint i" by simp
    with sint_lt[of i] show False by simp
  next
    assume "q \<le> - 32768 - 1 / 2"
    then have "valof val * 2 ^ 4 - 1 / 2 \<le> - of_int 32769" by (simp add: q_def)
    from scaled_i_below[OF float_scale8_pow res _ _ this]
    have "sint i \<le> - 32769" by simp
    with sint_ge[of i] show False by simp
  qed
  then show ?thesis ..
qed

lemma FloatToFix8_defined_tight:
  assumes "convertible8 val"
  shows "\<exists>i. FloatToFix8_scaled_i val = Some i"
proof -
  define q where "q = valof val * 2 ^ 4"
  from assms have fin: "is_finite val" and lo: "- 32768 - 1 / 2 < q" and hi: "q < 32767 + 1 / 2"
    by (simp_all add: convertible8_def scale_values q_def)
  show ?thesis
  proof (cases "0 \<le> q")
    case True
    with hi have "\<bar>valof val * 2 ^ 4\<bar> < of_int (16776960 * 2 ^ 140) / 2 ^ 149"
      by (simp add: q_def)
    from scaled_gap_below[OF _ this] have le: "\<bar>q\<bar> \<le> 16776959 / 512" by (simp add: q_def)
    have B: "(0 :: int) \<le> 16777215" "(16777215 :: int) < 2 ^ 24" "(16777215 :: int) * 2 ^ 140 < 2 ^ 277"
      by simp_all
    have bound: "\<bar>valof val * 2 ^ 4\<bar> + 1 / 2 \<le> of_int (16777215 * 2 ^ 140) / 2 ^ 149"
      using le by (simp add: q_def)
    have lim: "of_int (16777215 * 2 ^ 140) / 2 ^ 149 < (of_int (32767 + 1) :: rat)"
      "(0 :: int) \<le> 32767"
      by simp_all
    have fit: "if 0 \<le> valof val * 2 ^ 4 then (32767 :: int) < 2 ^ (LENGTH(16) - 1)
               else (32767 :: int) \<le> 2 ^ (LENGTH(16) - 1)"
      by simp
    from scaled_i_exists_gen[OF float_scale8_pow fin B bound lim fit]
    show ?thesis unfolding FloatToFix8_scaled_i_def .
  next
    case False
    with lo have "\<bar>valof val * 2 ^ 4\<bar> < of_int (8388736 * 2 ^ 141) / 2 ^ 149"
      by (simp add: q_def)
    from scaled_gap_below[OF _ this] have le: "\<bar>q\<bar> \<le> 8388735 / 256" by (simp add: q_def)
    have B: "(0 :: int) \<le> 8388863" "(8388863 :: int) < 2 ^ 24" "(8388863 :: int) * 2 ^ 141 < 2 ^ 277"
      by simp_all
    have bound: "\<bar>valof val * 2 ^ 4\<bar> + 1 / 2 \<le> of_int (8388863 * 2 ^ 141) / 2 ^ 149"
      using le by (simp add: q_def)
    have lim: "of_int (8388863 * 2 ^ 141) / 2 ^ 149 < (of_int (32768 + 1) :: rat)"
      "(0 :: int) \<le> 32768"
      by simp_all
    have fit: "if 0 \<le> valof val * 2 ^ 4 then (32768 :: int) < 2 ^ (LENGTH(16) - 1)
               else (32768 :: int) \<le> 2 ^ (LENGTH(16) - 1)"
      using False by (simp add: q_def)
    from scaled_i_exists_gen[OF float_scale8_pow fin B bound lim fit]
    show ?thesis unfolding FloatToFix8_scaled_i_def .
  qed
qed

lemma FloatToFix16_defined_iff: "(FloatToFix16_scaled_i val \<noteq> None) = convertible16 val"
proof
  assume "FloatToFix16_scaled_i val \<noteq> None"
  then show "convertible16 val" by (rule contrapos_np) (rule FloatToFix16_undefined)
next
  assume "convertible16 val"
  from FloatToFix16_defined_tight[OF this] show "FloatToFix16_scaled_i val \<noteq> None" by auto
qed

lemma FloatToFix8_defined_iff: "(FloatToFix8_scaled_i val \<noteq> None) = convertible8 val"
proof
  assume "FloatToFix8_scaled_i val \<noteq> None"
  then show "convertible8 val" by (rule contrapos_np) (rule FloatToFix8_undefined)
next
  assume "convertible8 val"
  from FloatToFix8_defined_tight[OF this] show "FloatToFix8_scaled_i val \<noteq> None" by auto
qed

subsection \<open>A conversion clamps exactly from half a unit beyond the bound\<close>














section \<open>Rounding in the conversion helpers\<close>

subsection \<open>The largest float below one half\<close>

lemma sign_float_round: "sign (float_round z q) = (if q = 0 then z else q < 0)"
  by (simp add: float_round_def Let_def float_infinity_def)

lemma round_below_one: "float_round False (33554431 / 33554432) = Float False 127 0"
  by code_simp

lemma valof_one: "is_finite (Float False 127 0)" "valof (Float False 127 0) = 1"
  by (simp_all add: is_finite_def valof_Float)

lemma pred_half_rounds_up:
  assumes S: "is_finite S" "valof S = 2 ^ g"
    and val: "is_finite val" "valof val * 2 ^ g = 16777215 / 33554432"
    and len: "2 \<le> LENGTH('a)"
  shows "(let scaled_f = fmul val S in
          if fge scaled_f (float_of_rat 0)
          then float_to_sint (fadd scaled_f (float_of_rat (1 / 2)))
          else float_to_sint (fsub scaled_f (float_of_rat (1 / 2)))) = Some (1 :: 'a::len word)"
proof -
  define sf where "sf = fmul val S"
  have sfr: "sf = float_round (sign val \<noteq> sign S) (16777215 / 33554432)"
    unfolding sf_def by (simp add: fmul_finite val S)
  have "\<bar>16777215 / 33554432 :: rat\<bar> = of_int 16777215 / 2 ^ 25" by simp
  from float_round_dyadic[OF _ _ _ this, of "sign val \<noteq> sign S"]
  have sf: "is_finite sf" "valof sf = 16777215 / 33554432"
    unfolding sfr by (simp_all add: is_finite_def)
  have ss: "sign sf = False" unfolding sfr by (simp add: sign_float_round)
  have "fadd sf (float_of_rat (1 / 2)) = float_round False (16777215 / 33554432 + 1 / 2)"
    by (simp add: fadd_finite sf float_half ss)
  also have "\<dots> = Float False 127 0" using round_below_one by simp
  finally have t: "fadd sf (float_of_rat (1 / 2)) = Float False 127 0" .
  have "(2 :: int) ^ 1 \<le> 2 ^ (LENGTH('a) - 1)"
    using len by (intro power_increasing) simp_all
  then have "float_to_sint (Float False 127 0) = Some (1 :: 'a word)"
    by (simp add: float_to_sint_def valof_one truncate_def)
  then show ?thesis
    unfolding Let_def sf_def[symmetric] by (simp add: fge_finite sf float_zero t)
qed

subsection \<open>The rounded integer is never more than one away\<close>

lemma scaled_i_within_one:
  fixes i :: "'a::len word"
  assumes S: "is_finite S" "valof S = 2 ^ g"
    and res: "(let scaled_f = fmul val S in
               if fge scaled_f (float_of_rat 0)
               then float_to_sint (fadd scaled_f (float_of_rat (1 / 2)))
               else float_to_sint (fsub scaled_f (float_of_rat (1 / 2)))) = Some i"
    and small: "\<bar>valof val * 2 ^ g\<bar> + 1 / 2 < 16777215"
  shows "sint i = round_half_away (valof val * 2 ^ g)
       \<or> sint i = round_half_away (valof val * 2 ^ g) + (if 0 \<le> valof val * 2 ^ g then 1 else - 1)"
proof -
  define s where "s = valof val * 2 ^ g"
  from scaled_i_defined[OF S res] obtain t where t: "is_finite t" "sint i = truncate (valof t)"
    "t = (if 0 \<le> s
          then float_round (sign (fmul val S) \<and> sign (float_of_rat (1 / 2))) (s + 1 / 2)
          else float_round (sign (fmul val S) \<and> \<not> sign (float_of_rat (1 / 2))) (s - 1 / 2))"
    unfolding s_def by blast
  define y where "y = \<bar>s\<bar> + 1 / 2"
  define N where "N = \<lfloor>y\<rfloor>"
  have y0: "0 \<le> y" by (simp add: y_def)
  have N0: "0 \<le> N" unfolding N_def using y0 by simp
  have Ny: "of_int N \<le> y" "y < of_int N + 1" unfolding N_def by linarith+
  have "y < of_int 16777215" using small unfolding y_def s_def by simp
  then have "N < 16777215" unfolding N_def by (simp only: floor_less_iff)
  then have N24: "N < 2 ^ 24" "N + 1 < 2 ^ 24" by simp_all
  have N1: "0 \<le> N + 1" "(N + 1) * 2 ^ 149 < 2 ^ 277" using N0 N24 by simp_all
  have rha: "round_half_away s = (if 0 \<le> s then N else - N)"
    by (simp add: round_half_away_def N_def y_def)
  define z where "z = (if 0 \<le> s then sign (fmul val S) \<and> sign (float_of_rat (1 / 2))
                       else sign (fmul val S) \<and> \<not> sign (float_of_rat (1 / 2)))"
  define q where "q = (if 0 \<le> s then s + 1 / 2 else s - 1 / 2)"
  have tq: "t = float_round z q" unfolding t(3) z_def q_def by simp
  have aq: "\<bar>q\<bar> = y" unfolding q_def y_def by simp
  have lo: "of_int (N * 2 ^ 149) / 2 ^ 149 \<le> \<bar>q\<bar>" using Ny(1) by (simp add: aq)
  have hi: "\<bar>q\<bar> \<le> of_int ((N + 1) * 2 ^ 149) / 2 ^ 149" using Ny(2) by (simp add: aq)
  from float_round_upper_bound(2)[OF N1(1) N24(2) N1(2) hi, of z]
  have up: "\<bar>valof t\<bar> \<le> of_int N + 1" by (simp add: tq)
  from float_round_lower_bound[OF N0 N24(1) lo, of z] t(1)
  have low: "if q < 0 then valof t \<le> - of_int N else of_int N \<le> valof t"
    unfolding tq by (auto simp: not_finite_infinity split: if_splits)
  show ?thesis
  proof (cases "0 \<le> s")
    case True
    then have "\<not> q < 0" unfolding q_def by simp
    with low have l: "of_int N \<le> valof t" by simp
    then have "0 \<le> valof t" using N0 by (simp add: order_trans[of 0 "of_int N"])
    with up have u: "valof t \<le> of_int (N + 1)" by simp
    from l N0 have "N \<le> \<lfloor>valof t\<rfloor>" by (simp add: le_floor_iff)
    moreover from u have "\<lfloor>valof t\<rfloor> \<le> N + 1"
      by (metis floor_mono floor_of_int)
    ultimately have "\<lfloor>valof t\<rfloor> = N \<or> \<lfloor>valof t\<rfloor> = N + 1" by linarith
    then show ?thesis
      using True \<open>0 \<le> valof t\<close> unfolding s_def[symmetric] t(2) rha by (simp add: truncate_def)
  next
    case False
    then have qn: "q < 0" unfolding q_def by simp
    with low have l: "valof t \<le> - of_int N" by simp
    have tn: "valof t \<le> 0" using l N0 by (simp add: order_trans[of _ "- of_int N" 0])
    with up have u: "of_int (- (N + 1)) \<le> valof t" by simp
    from l have "\<lceil>valof t\<rceil> \<le> - N"
      by (metis ceiling_mono ceiling_of_int of_int_minus)
    moreover from u have "- (N + 1) \<le> \<lceil>valof t\<rceil>"
      by (metis ceiling_mono ceiling_of_int)
    ultimately have c: "\<lceil>valof t\<rceil> = - N \<or> \<lceil>valof t\<rceil> = - N - 1" by linarith
    show ?thesis
    proof (cases "valof t = 0")
      case True
      with l N0 have "N = 0" by simp
      with True False show ?thesis
        unfolding s_def[symmetric] t(2) rha by (simp add: truncate_def)
    next
      case nz: False
      with tn have "\<not> 0 \<le> valof t" by simp
      with c False show ?thesis
        unfolding s_def[symmetric] t(2) rha by (simp add: truncate_def)
    qed
  qed
qed

lemma FloatToFix16_within_one:
  assumes "FloatToFix16_scaled_i val = Some i" "\<bar>valof val * 256\<bar> + 1 / 2 < 16777215"
  shows "sint i = round_half_away (valof val * 256)
       \<or> sint i = round_half_away (valof val * 256) + (if 0 \<le> valof val * 256 then 1 else - 1)"
  using scaled_i_within_one[OF float_scale16(1) _ assms(1)[unfolded FloatToFix16_scaled_i_def], of 8]
    assms(2)
  by (simp add: float_scale16(2))

lemma FloatToFix8_within_one:
  assumes "FloatToFix8_scaled_i val = Some i" "\<bar>valof val * 16\<bar> + 1 / 2 < 16777215"
  shows "sint i = round_half_away (valof val * 16)
       \<or> sint i = round_half_away (valof val * 16) + (if 0 \<le> valof val * 16 then 1 else - 1)"
  using scaled_i_within_one[OF float_scale8(1) _ assms(1)[unfolded FloatToFix8_scaled_i_def], of 4]
    assms(2)
  by (simp add: float_scale8(2))

text \<open>
  Half a resolution unit, positive or negative, is a tie and is rounded away from zero, in
  both formats (the part of claim C2 after \<open>in particular\<close>).
\<close>

lemma FloatToFix_half_resolution:
  "FixedPoint_FloatToFix16 (float_of_rat (1 / 512)) (Ref c) = Some (E_OK, Ref (Some 1))"
  "FixedPoint_FloatToFix16 (float_of_rat (- 1 / 512)) (Ref c) = Some (E_OK, Ref (Some (- 1)))"
  "FixedPoint_FloatToFix8 (float_of_rat (1 / 32)) (Ref c') = Some (E_OK, Ref (Some 1))"
  "FixedPoint_FloatToFix8 (float_of_rat (- 1 / 32)) (Ref c') = Some (E_OK, Ref (Some (- 1)))"
  using FloatToFix16_dyadic[of 1 9 1 1 c] FloatToFix16_dyadic[of "- 1" 9 "- 1" 1 c]
    FloatToFix8_dyadic[of 1 5 1 1 c'] FloatToFix8_dyadic[of "- 1" 5 "- 1" 1 c']
  by (simp_all add: eval_round_simps)

lemma FloatToFix16_pred_half:
  "FixedPoint_FloatToFix16 (float_of_rat (16777215 / 8589934592)) (Ref c) = Some (E_OK, Ref (Some 1))"
proof -
  have x: "is_finite (float_of_rat (16777215 / 8589934592))"
    "valof (float_of_rat (16777215 / 8589934592)) = 16777215 / 8589934592"
    using float_of_rat_dyadic[of 16777215 33] by simp_all
  have "FloatToFix16_scaled_i (float_of_rat (16777215 / 8589934592)) = Some 1"
    unfolding FloatToFix16_scaled_i_def
    by (rule pred_half_rounds_up[OF float_scale16(1) _ x(1), of 8]) (simp_all add: float_scale16(2) x(2))
  then show ?thesis by (simp add: FloatToFix16_eq saturate_def)
qed

lemma FloatToFix8_pred_half:
  "FixedPoint_FloatToFix8 (float_of_rat (16777215 / 536870912)) (Ref c) = Some (E_OK, Ref (Some 1))"
proof -
  have x: "is_finite (float_of_rat (16777215 / 536870912))"
    "valof (float_of_rat (16777215 / 536870912)) = 16777215 / 536870912"
    using float_of_rat_dyadic[of 16777215 29] by simp_all
  have "FloatToFix8_scaled_i (float_of_rat (16777215 / 536870912)) = Some 1"
    unfolding FloatToFix8_scaled_i_def
    by (rule pred_half_rounds_up[OF float_scale8(1) _ x(1), of 4]) (simp_all add: float_scale8(2) x(2))
  then show ?thesis by (simp add: FloatToFix8_eq saturate_def)
qed

text \<open>
  Claim C2 describes the rounding the helpers are written for (their comments say round
  to nearest, ties away from zero), but the code misses it where the float addition of
  one half is itself rounded.  For the largest float below one half resolution unit,
  \<open>16777215 / 2 ^ 33\<close> in the 16-bit format and \<open>16777215 / 2 ^ 29\<close> in the 8-bit format, the
  scaled value is \<open>16777215 / 2 ^ 25\<close>, just below one half, whose nearest integer is 0; the
  sum with one half is a tie between two floats and is rounded to \<open>1.0\<close>, and the helper
  stores raw 1 with \<open>E_OK\<close>.
\<close>

theorem C2_failing_input:
  "is_finite (float_of_rat (16777215 / 8589934592))
   \<and> valof (float_of_rat (16777215 / 8589934592)) * of_nat SCALE_16 = 16777215 / 33554432
   \<and> round_half_away (valof (float_of_rat (16777215 / 8589934592)) * of_nat SCALE_16) = 0
   \<and> FixedPoint_FloatToFix16 (float_of_rat (16777215 / 8589934592)) (Ref None)
       = Some (E_OK, Ref (Some 1))
   \<and> is_finite (float_of_rat (16777215 / 536870912))
   \<and> valof (float_of_rat (16777215 / 536870912)) * of_nat SCALE_8 = 16777215 / 33554432
   \<and> round_half_away (valof (float_of_rat (16777215 / 536870912)) * of_nat SCALE_8) = 0
   \<and> FixedPoint_FloatToFix8 (float_of_rat (16777215 / 536870912)) (Ref None)
       = Some (E_OK, Ref (Some 1))"
proof -
  have x: "is_finite (float_of_rat (16777215 / 8589934592))"
    "valof (float_of_rat (16777215 / 8589934592)) = 16777215 / 8589934592"
    using float_of_rat_dyadic[of 16777215 33] by simp_all
  have y: "is_finite (float_of_rat (16777215 / 536870912))"
    "valof (float_of_rat (16777215 / 536870912)) = 16777215 / 536870912"
    using float_of_rat_dyadic[of 16777215 29] by simp_all
  show ?thesis
    by (simp add: x y scale_values FloatToFix16_pred_half FloatToFix8_pred_half eval_round_simps)
qed

section \<open>Status aggregation in the public operations\<close>









end
